theory Spec2Isabelle
  imports Complex_Main "HOL-Library.Multiset"
begin

section \<open>Branch and bound for the 0/1 project-selection knapsack\<close>

text \<open>
  Shallow embedding of \<^verbatim>\<open>src/optimization/branch_and_bound.py\<close>.
  Python floats are idealised as real numbers, as the specification's numeric semantics
  prescribes; integer counters are natural numbers. Exceptions are values of the type
  \<open>error\<close>; a function that may raise returns \<open>error + 'a\<close>.
\<close>

subsection \<open>Data model\<close>

datatype error = ValueError | ZeroDivisionError | IndexError

text \<open>
  Class \<^verbatim>\<open>Project\<close>. The field \<^verbatim>\<open>efficiency\<close> is not a constructor argument:
  \<^verbatim>\<open>__post_init__\<close> computes it from cost and impact and nothing writes it afterwards,
  so it is the function \<open>efficiency\<close> of the record.
\<close>

record project =
  pid :: int
  name :: string
  cost :: real
  impact :: real
  category :: string

definition efficiency :: "project \<Rightarrow> real" where
  "efficiency p = (if cost p > 0 then impact p / cost p else 0)"

text \<open>The constructor call \<^verbatim>\<open>Project(id, name, cost, impact, category)\<close>.\<close>

definition Project :: "int \<Rightarrow> string \<Rightarrow> real \<Rightarrow> real \<Rightarrow> string \<Rightarrow> project" where
  "Project i n c v cat = \<lparr>pid = i, name = n, cost = c, impact = v, category = cat\<rparr>"

text \<open>Class \<^verbatim>\<open>Node\<close>, with its comparison \<^verbatim>\<open>__lt__\<close>.\<close>

record node =
  level :: nat
  selected :: "int list"
  total_cost :: real
  total_impact :: real
  bound :: real

definition node_lt :: "node \<Rightarrow> node \<Rightarrow> bool" where
  "node_lt self other = (bound self > bound other)"

text \<open>
  The attributes of a \<^verbatim>\<open>BranchAndBound\<close> object. \<^verbatim>\<open>n_projects\<close> is set once to the
  length of the project list and never changed.
\<close>

record solver =
  projects :: "project list"
  budget :: real
  nodes_expanded :: nat
  nodes_pruned_infeasible :: nat
  nodes_pruned_bound :: nat
  max_depth :: nat
  execution_time :: real
  best_solution :: "node option"
  best_value :: real

definition n_projects :: "solver \<Rightarrow> nat" where
  "n_projects s = length (projects s)"

text \<open>The dictionaries returned by \<^verbatim>\<open>solve\<close> and \<^verbatim>\<open>greedy_heuristic\<close>.\<close>

record metrics =
  m_nodes_expanded :: nat
  m_nodes_pruned_total :: nat
  m_nodes_pruned_infeasible :: nat
  m_nodes_pruned_bound :: nat
  m_max_depth :: nat
  m_execution_time_seconds :: real
  m_pruning_efficiency_pct :: real

record solution =
  selected_projects :: "project list"
  sol_total_cost :: real
  sol_total_impact :: real
  budget_used_pct :: real
  n_projects_selected :: nat

record details =
  d_budget :: real
  d_n_projects_available :: nat
  d_execution_time :: real

datatype result =
    No_solution metrics
  | Optimal solution metrics details
  | Heuristic solution real

fun status :: "result \<Rightarrow> string" where
  "status (No_solution m) = ''no_solution''"
| "status (Optimal sol m d) = ''optimal''"
| "status (Heuristic sol t) = ''heuristic''"

subsection \<open>Construction\<close>

text \<open>
  \<^verbatim>\<open>list.sort(key=lambda p: p.efficiency, reverse=True)\<close> is a stable sort into
  non-increasing key order: projects of equal efficiency keep their relative order.
\<close>

definition sort_by_efficiency :: "project list \<Rightarrow> project list" where
  "sort_by_efficiency ps = sort_key (\<lambda>p. - efficiency p) ps"

definition BranchAndBound_init :: "project list \<Rightarrow> real \<Rightarrow> error + solver" where
  "BranchAndBound_init ps b =
     (if ps = [] then Inl ValueError
      else if b \<le> 0 then Inl ValueError
      else Inr \<lparr>projects = sort_by_efficiency ps, budget = b,
                nodes_expanded = 0, nodes_pruned_infeasible = 0, nodes_pruned_bound = 0,
                max_depth = 0, execution_time = 0,
                best_solution = None, best_value = 0\<rparr>)"

subsection \<open>Bound, feasibility, pruning, incumbent\<close>

text \<open>
  The loop of \<^verbatim>\<open>calculate_bound\<close> over the projects at index \<open>level\<close> and beyond.
  Dividing by a zero cost raises \<^verbatim>\<open>ZeroDivisionError\<close>.
\<close>

fun bound_loop :: "project list \<Rightarrow> real \<Rightarrow> real \<Rightarrow> error + real" where
  "bound_loop [] bnd remaining_budget = Inr bnd"
| "bound_loop (p # ps) bnd remaining_budget =
     (if cost p \<le> remaining_budget
      then bound_loop ps (bnd + impact p) (remaining_budget - cost p)
      else if cost p = 0 then Inl ZeroDivisionError
      else Inr (bnd + impact p * (remaining_budget / cost p)))"

text \<open>The division the loop executes, if it executes one: numerator and divisor.\<close>

fun bound_division :: "project list \<Rightarrow> real \<Rightarrow> (real \<times> real) option" where
  "bound_division [] remaining_budget = None"
| "bound_division (p # ps) remaining_budget =
     (if cost p \<le> remaining_budget then bound_division ps (remaining_budget - cost p)
      else Some (remaining_budget, cost p))"

definition calculate_bound :: "solver \<Rightarrow> node \<Rightarrow> error + real" where
  "calculate_bound s nd =
     bound_loop (drop (level nd) (projects s)) (total_impact nd) (budget s - total_cost nd)"

definition is_feasible :: "solver \<Rightarrow> node \<Rightarrow> bool" where
  "is_feasible s nd = (total_cost nd \<le> budget s)"

text \<open>\<^verbatim>\<open>should_prune\<close> updates a pruning counter; the new solver state is returned with
  the verdict and the reason.\<close>

definition should_prune :: "solver \<Rightarrow> node \<Rightarrow> solver \<times> bool \<times> string" where
  "should_prune s nd =
     (if \<not> is_feasible s nd
      then (s\<lparr>nodes_pruned_infeasible := nodes_pruned_infeasible s + 1\<rparr>, True, ''infeasible'')
      else if bound nd \<le> best_value s
      then (s\<lparr>nodes_pruned_bound := nodes_pruned_bound s + 1\<rparr>, True, ''bound'')
      else (s, False, ''none''))"

definition update_best_solution :: "solver \<Rightarrow> node \<Rightarrow> solver" where
  "update_best_solution s nd =
     (if is_feasible s nd \<and> total_impact nd > best_value s
      then s\<lparr>best_solution := Some nd, best_value := total_impact nd\<rparr>
      else s)"

subsection \<open>The priority queue\<close>

text \<open>
  The frontier is a Python list managed by \<^verbatim>\<open>heapq\<close> of the standard library, which
  compares nodes with \<^verbatim>\<open>Node.__lt__\<close>. The definitions follow the library's
  \<^verbatim>\<open>_siftdown\<close>, \<^verbatim>\<open>_siftup\<close>, \<^verbatim>\<open>heappush\<close> and \<^verbatim>\<open>heappop\<close>.
\<close>

function siftdown_loop :: "node list \<Rightarrow> nat \<Rightarrow> nat \<Rightarrow> node \<Rightarrow> node list" where
  "siftdown_loop heap startpos pos newitem =
     (if pos > startpos
      then (let parentpos = (pos - 1) div 2; parent = heap ! parentpos
            in if node_lt newitem parent
               then siftdown_loop (heap[pos := parent]) startpos parentpos newitem
               else heap[pos := newitem])
      else heap[pos := newitem])"
  by pat_completeness auto
termination
  by (relation "measure (\<lambda>(heap, startpos, pos, newitem). pos)") auto

definition siftdown :: "node list \<Rightarrow> nat \<Rightarrow> nat \<Rightarrow> node list" where
  "siftdown heap startpos pos = siftdown_loop heap startpos pos (heap ! pos)"

function siftup_loop :: "node list \<Rightarrow> nat \<Rightarrow> nat \<Rightarrow> node list \<times> nat" where
  "siftup_loop heap pos childpos =
     (if childpos < length heap
      then (let rightpos = childpos + 1;
                childpos' = (if rightpos < length heap
                                \<and> \<not> node_lt (heap ! childpos) (heap ! rightpos)
                             then rightpos else childpos)
            in siftup_loop (heap[pos := heap ! childpos']) childpos' (2 * childpos' + 1))
      else (heap, pos))"
  by pat_completeness auto
termination
  by (relation "measure (\<lambda>(heap, pos, childpos). length heap - childpos)") auto

declare siftdown_loop.simps [simp del] siftup_loop.simps [simp del]

definition siftup :: "node list \<Rightarrow> nat \<Rightarrow> node list" where
  "siftup heap pos =
     (let newitem = heap ! pos;
          (heap', pos') = siftup_loop heap pos (2 * pos + 1)
      in siftdown (heap'[pos' := newitem]) pos pos')"

definition heappush :: "node list \<Rightarrow> node \<Rightarrow> node list" where
  "heappush heap item = (let heap' = heap @ [item] in siftdown heap' 0 (length heap' - 1))"

text \<open>\<^verbatim>\<open>heappop\<close> is only called on a non-empty list (the loop condition).\<close>

definition heappop :: "node list \<Rightarrow> node \<times> node list" where
  "heappop heap =
     (let lastelt = last heap; heap' = butlast heap
      in if heap' \<noteq> [] then (hd heap', siftup (heap'[0 := lastelt]) 0)
         else (lastelt, heap'))"

text \<open>The queue operations keep the multiset of nodes: a push adds the node, a pop
  removes the node it returns.\<close>

lemma mset_shift:
  "i < length h \<Longrightarrow> j < length h \<Longrightarrow> i \<noteq> j \<Longrightarrow> mset (h[i := h ! j, j := x]) = mset (h[i := x])"
  by (simp add: mset_update nth_list_update) 

lemma mset_siftdown_loop:
  "pos < length heap \<Longrightarrow> mset (siftdown_loop heap startpos pos x) = mset (heap[pos := x])"
proof (induction heap startpos pos x rule: siftdown_loop.induct)
  case (1 heap startpos pos newitem)
  show ?case
  proof (cases "pos > startpos \<and> node_lt newitem (heap ! ((pos - 1) div 2))")
    case True
    let ?pp = "(pos - 1) div 2"
    from True 1(2) have pp: "?pp < pos" "?pp < length heap" by auto
    have "mset (siftdown_loop heap startpos pos newitem)
          = mset (siftdown_loop (heap[pos := heap ! ?pp]) startpos ?pp newitem)"
      using True by (subst siftdown_loop.simps) (simp add: Let_def)
    also have "\<dots> = mset (heap[pos := heap ! ?pp, ?pp := newitem])"
      using True pp by (intro "1.IH") auto
    also have "\<dots> = mset (heap[pos := newitem])"
      using pp 1(2) by (intro mset_shift) auto
    finally show ?thesis .
  next
    case False
    then show ?thesis by (subst siftdown_loop.simps) (auto simp: Let_def)
  qed
qed

lemma siftup_loop_props:
  "pos < length heap \<Longrightarrow> pos < childpos \<Longrightarrow> siftup_loop heap pos childpos = (heap', pos')
   \<Longrightarrow> pos' < length heap' \<and> mset (heap'[pos' := x]) = mset (heap[pos := x])"
proof (induction heap pos childpos arbitrary: heap' pos' rule: siftup_loop.induct)
  case (1 heap pos childpos)
  show ?case
  proof (cases "childpos < length heap")
    case True
    define c where "c = (if childpos + 1 < length heap
                                \<and> \<not> node_lt (heap ! childpos) (heap ! (childpos + 1))
                             then childpos + 1 else childpos)"
    have c: "c < length heap" "pos < c" "c < 2 * c + 1" using True 1(3) by (auto simp: c_def)
    have "siftup_loop heap pos childpos = siftup_loop (heap[pos := heap ! c]) c (2 * c + 1)"
      unfolding c_def using True by (subst siftup_loop.simps) (simp only: Let_def if_True)
    with 1(4) have eq: "siftup_loop (heap[pos := heap ! c]) c (2 * c + 1) = (heap', pos')"
      by simp
    have "pos' < length heap' \<and> mset (heap'[pos' := x]) = mset (heap[pos := heap ! c, c := x])"
      using c eq True by (intro "1.IH"[OF True refl, of c]) (auto simp: c_def)
    moreover have "mset (heap[pos := heap ! c, c := x]) = mset (heap[pos := x])"
      using c 1(2) by (intro mset_shift) auto
    ultimately show ?thesis by simp
  next
    case False
    with 1(2,4) show ?thesis by (subst (asm) siftup_loop.simps) auto
  qed
qed

lemma mset_heappush: "mset (heappush heap item) = add_mset item (mset heap)"
  by (simp add: heappush_def siftdown_def Let_def mset_siftdown_loop)

lemma mset_heappop:
  assumes "heap \<noteq> []" "heappop heap = (x, heap')"
  shows "mset heap = add_mset x (mset heap')"
proof (cases "butlast heap = []")
  case True
  with assms show ?thesis
    by (cases heap rule: rev_cases) (auto simp: heappop_def Let_def)
next
  case False
  obtain h0 l where heap: "heap = h0 @ [l]" using assms(1) by (cases heap rule: rev_cases) auto
  with False have h0: "h0 \<noteq> []" by simp
  obtain h2 p where sl: "siftup_loop (h0[0 := l]) 0 (Suc 0) = (h2, p)" by force
  from siftup_loop_props[OF _ _ sl, of l] h0
  have p: "p < length h2" and ms: "mset (h2[p := l]) = mset (h0[0 := l])" by auto
  have x: "x = hd h0" and h': "heap' = siftup (h0[0 := l]) 0"
    using assms(2) h0 by (auto simp: heappop_def heap Let_def)
  have "mset heap' = mset (h2[p := l])"
    using p h0 by (simp add: h' siftup_def sl siftdown_def mset_siftdown_loop)
  also have "\<dots> = add_mset l (mset h0 - {#hd h0#})"
    using h0 by (simp add: ms mset_update hd_conv_nth)
  finally show ?thesis using h0 by (cases h0) (auto simp: heap x)
qed

subsection \<open>The search\<close>

text \<open>
  One child of an expanded node: its bound is computed, then it is pushed unless
  \<^verbatim>\<open>should_prune\<close> rejects it. \<^verbatim>\<open>solve\<close> does this for the left child and then for
  the right child.
\<close>

definition add_child :: "solver \<Rightarrow> node list \<Rightarrow> node \<Rightarrow> error + solver \<times> node list" where
  "add_child s pq child =
     (case calculate_bound s child of
        Inl e \<Rightarrow> Inl e
      | Inr b \<Rightarrow>
          (let child' = child\<lparr>bound := b\<rparr>;
               (s', prune, reason) = should_prune s child'
           in Inr (s', if \<not> prune then heappush pq child' else pq)))"

text \<open>
  The body of the \<^verbatim>\<open>while priority_queue\<close> loop, for a non-empty queue. Indexing the
  project list beyond its end raises \<^verbatim>\<open>IndexError\<close>.
\<close>

definition solve_step :: "solver \<Rightarrow> node list \<Rightarrow> error + solver \<times> node list" where
  "solve_step s pq =
     (let (current_node, pq1) = heappop pq;
          s1 = s\<lparr>nodes_expanded := nodes_expanded s + 1\<rparr>;
          s2 = s1\<lparr>max_depth := max (max_depth s1) (level current_node)\<rparr>;
          (s3, prune, prune_reason) = should_prune s2 current_node
      in if prune then Inr (s3, pq1)
         else if level current_node = n_projects s3
         then Inr (update_best_solution s3 current_node, pq1)
         else if level current_node > n_projects s3 then Inl IndexError
         else
           (let project = projects s3 ! level current_node;
                left_child = \<lparr>level = level current_node + 1,
                              selected = selected current_node @ [pid project],
                              total_cost = total_cost current_node + cost project,
                              total_impact = total_impact current_node + impact project,
                              bound = 0\<rparr>;
                right_child = \<lparr>level = level current_node + 1,
                               selected = selected current_node,
                               total_cost = total_cost current_node,
                               total_impact = total_impact current_node,
                               bound = 0\<rparr>
            in case add_child s3 pq1 left_child of
                 Inl e \<Rightarrow> Inl e
               | Inr (s4, pq2) \<Rightarrow> add_child s4 pq2 right_child))"

text \<open>The weight of a frontier: it decreases with every iteration of the loop.\<close>

definition node_weight :: "nat \<Rightarrow> node \<Rightarrow> nat" where
  "node_weight n nd = 2 * 2 ^ (Suc n - level nd) - 1"

definition frontier_weight :: "solver \<times> node list \<Rightarrow> nat" where
  "frontier_weight = (\<lambda>(s, pq). sum_list (map (node_weight (n_projects s)) pq))"

text \<open>The frontier weight decreases with every iteration, so the loop terminates.\<close>

lemma projects_should_prune:
  "should_prune s nd = (s', pr, rs) \<Longrightarrow> projects s' = projects s \<and> budget s' = budget s"
  by (auto simp: should_prune_def split: if_splits)

lemma projects_update_best_solution [simp]: "projects (update_best_solution s nd) = projects s"
  by (simp add: update_best_solution_def)

lemma frontier_weight_mset:
  "frontier_weight (s, pq) = sum_mset (image_mset (node_weight (n_projects s)) (mset pq))"
  by (simp add: frontier_weight_def sum_mset_sum_list [symmetric])

lemma add_child_weight:
  assumes "add_child s pq child = Inr (s', pq')"
  shows "projects s' = projects s
       \<and> frontier_weight (s', pq') \<le> frontier_weight (s, pq) + node_weight (n_projects s) child"
proof -
  obtain b where b: "calculate_bound s child = Inr b"
    using assms by (auto simp: add_child_def split: sum.splits)
  obtain s1 pr rs where sp: "should_prune s (child\<lparr>bound := b\<rparr>) = (s1, pr, rs)"
    by (cases "should_prune s (child\<lparr>bound := b\<rparr>)") auto
  have s': "s' = s1" and pq': "pq' = (if \<not> pr then heappush pq (child\<lparr>bound := b\<rparr>) else pq)"
    using assms by (auto simp: add_child_def b sp Let_def)
  have p: "projects s1 = projects s" using projects_should_prune[OF sp] by simp
  have w: "node_weight n (child\<lparr>bound := b\<rparr>) = node_weight n child" for n
    by (simp add: node_weight_def)
  show ?thesis using p
    by (simp add: s' pq' frontier_weight_mset n_projects_def mset_heappush w)
qed

lemma node_weight_children:
  assumes "l < n" "level c1 = Suc l" "level c2 = Suc l" "level nd = l"
  shows "node_weight n c1 + node_weight n c2 < node_weight n nd"
proof -
  define k :: nat where "k = 2 ^ (n - l)"
  have k: "k \<ge> 1" by (simp add: k_def)
  from assms(1) have "Suc n - l = Suc (n - l)" by simp
  then have "node_weight n nd = 2 * (2 * k) - 1"
    by (simp add: node_weight_def assms(4) k_def)
  moreover have "node_weight n c1 = 2 * k - 1" "node_weight n c2 = 2 * k - 1"
    by (simp_all add: node_weight_def assms k_def)
  ultimately show ?thesis using k by arith
qed

lemma node_weight_pos: "0 < node_weight n nd"
proof -
  define k :: nat where "k = 2 ^ (Suc n - level nd)"
  have "k \<ge> 1" by (simp add: k_def)
  then show ?thesis by (simp add: node_weight_def k_def [symmetric])
qed

lemma solve_step_unfold:
  assumes "heappop pq = (cur, pq1)"
    and "should_prune (s\<lparr>nodes_expanded := nodes_expanded s + 1,
                          max_depth := max (max_depth s) (level cur)\<rparr>) cur = (s3, pr, rs)"
  shows "solve_step s pq =
     (if pr then Inr (s3, pq1)
      else if level cur = n_projects s3 then Inr (update_best_solution s3 cur, pq1)
      else if level cur > n_projects s3 then Inl IndexError
      else (case add_child s3 pq1
                   \<lparr>level = level cur + 1,
                    selected = selected cur @ [pid (projects s3 ! level cur)],
                    total_cost = total_cost cur + cost (projects s3 ! level cur),
                    total_impact = total_impact cur + impact (projects s3 ! level cur),
                    bound = 0\<rparr> of
              Inl e \<Rightarrow> Inl e
            | Inr (s4, pq2) \<Rightarrow>
                add_child s4 pq2
                   \<lparr>level = level cur + 1, selected = selected cur,
                    total_cost = total_cost cur, total_impact = total_impact cur,
                    bound = 0\<rparr>))"
  using assms by (simp add: solve_step_def Let_def split: sum.splits)

lemma solve_step_decreases:
  assumes "pq \<noteq> []" "solve_step s pq = Inr (s', pq')"
  shows "projects s' = projects s \<and> frontier_weight (s', pq') < frontier_weight (s, pq)"
proof -
  obtain cur pq1 where pop: "heappop pq = (cur, pq1)" by (cases "heappop pq") auto
  from mset_heappop[OF assms(1) pop] have ms: "mset pq = add_mset cur (mset pq1)" .
  define s2 where "s2 = s\<lparr>nodes_expanded := nodes_expanded s + 1,
                          max_depth := max (max_depth s) (level cur)\<rparr>"
  obtain s3 pr rs where sp: "should_prune s2 cur = (s3, pr, rs)"
    by (cases "should_prune s2 cur") auto
  have p3: "projects s3 = projects s"
    using projects_should_prune[OF sp] by (simp add: s2_def)
  have n3: "n_projects s3 = n_projects s" using p3 by (simp add: n_projects_def)
  have fw: "frontier_weight (t, pq) = frontier_weight (t, pq1) + node_weight (n_projects t) cur" for t
    by (simp add: frontier_weight_mset ms)
  note step = assms(2)[unfolded solve_step_unfold[OF pop sp[unfolded s2_def]]]
  show ?thesis
  proof (cases "pr \<or> level cur = n_projects s3")
    case True
    then have "projects s' = projects s \<and> pq' = pq1"
      using step p3 by (auto split: if_splits)
    then show ?thesis using fw[of s] node_weight_pos[of "n_projects s" cur]
      by (simp add: frontier_weight_mset n_projects_def)
  next
    case False
    then have lt: "level cur < n_projects s" using step n3 by (auto split: if_splits)
    let ?l = "\<lparr>level = level cur + 1,
                              selected = selected cur @ [pid (projects s3 ! level cur)],
                              total_cost = total_cost cur + cost (projects s3 ! level cur),
                              total_impact = total_impact cur + impact (projects s3 ! level cur),
                              bound = 0\<rparr>"
    let ?r = "\<lparr>level = level cur + 1,
                               selected = selected cur,
                               total_cost = total_cost cur,
                               total_impact = total_impact cur,
                               bound = 0\<rparr>"
    from step False lt n3 obtain s4 pq2 where
      l: "add_child s3 pq1 ?l = Inr (s4, pq2)" and r: "add_child s4 pq2 ?r = Inr (s', pq')"
      by (auto split: if_splits sum.splits)
    from add_child_weight[OF l] add_child_weight[OF r] p3
    have ps: "projects s' = projects s" 
      and w: "frontier_weight (s', pq') \<le> frontier_weight (s3, pq1) + node_weight (n_projects s) ?l + node_weight (n_projects s) ?r"
      by (auto simp: n_projects_def frontier_weight_mset)
    have "node_weight (n_projects s) ?l + node_weight (n_projects s) ?r < node_weight (n_projects s) cur"
      by (rule node_weight_children[OF lt]) auto
    moreover have "frontier_weight (s3, pq1) = frontier_weight (s, pq1)"
      using p3 by (simp add: frontier_weight_mset n_projects_def)
    ultimately show ?thesis using ps w fw[of s] by simp
  qed
qed

text \<open>The \<^verbatim>\<open>while priority_queue\<close> loop of \<^verbatim>\<open>solve\<close>.\<close>

function solve_loop :: "solver \<times> node list \<Rightarrow> error + solver" where
  "solve_loop (s, pq) =
     (if pq = [] then Inr s
      else case solve_step s pq of
             Inl e \<Rightarrow> Inl e
           | Inr (s', pq') \<Rightarrow> solve_loop (s', pq'))"
  by pat_completeness auto
termination
proof (relation "measure frontier_weight")
  show "wf (measure frontier_weight)" by simp
next
  fix s pq x2 s' pq'
  assume "pq \<noteq> []" "solve_step s pq = Inr x2" "(s', pq') = x2"
  then show "((s', pq'), (s, pq)) \<in> measure frontier_weight"
    using solve_step_decreases[of pq s s' pq'] by simp
qed

declare solve_loop.simps [simp del]

subsection \<open>Results\<close>

definition get_metrics :: "solver \<Rightarrow> metrics" where
  "get_metrics s =
     (let total_pruned = nodes_pruned_infeasible s + nodes_pruned_bound s
      in \<lparr>m_nodes_expanded = nodes_expanded s,
          m_nodes_pruned_total = total_pruned,
          m_nodes_pruned_infeasible = nodes_pruned_infeasible s,
          m_nodes_pruned_bound = nodes_pruned_bound s,
          m_max_depth = max_depth s,
          m_execution_time_seconds = execution_time s,
          m_pruning_efficiency_pct =
            (if nodes_expanded s + total_pruned > 0
             then real total_pruned / real (nodes_expanded s + total_pruned) * 100
             else 0)\<rparr>)"

text \<open>\<^verbatim>\<open>_prepare_result\<close>; the percentage of the budget used divides by the budget.\<close>

definition prepare_result :: "solver \<Rightarrow> error + result" where
  "prepare_result s =
     (case best_solution s of
        None \<Rightarrow> Inr (No_solution (get_metrics s))
      | Some best \<Rightarrow>
          (let selected_projects = filter (\<lambda>p. pid p \<in> set (selected best)) (projects s)
           in if budget s = 0 then Inl ZeroDivisionError
              else Inr (Optimal
                     \<lparr>selected_projects = selected_projects,
                      sol_total_cost = total_cost best,
                      sol_total_impact = total_impact best,
                      budget_used_pct = total_cost best / budget s * 100,
                      n_projects_selected = length selected_projects\<rparr>
                     (get_metrics s)
                     \<lparr>d_budget = budget s,
                      d_n_projects_available = n_projects s,
                      d_execution_time = execution_time s\<rparr>)))"

text \<open>
  \<^verbatim>\<open>solve\<close>. The two readings of the clock (\<^verbatim>\<open>time.time()\<close> on entry and after the
  loop) are inputs; the \<^verbatim>\<open>verbose\<close> flag only prints and is left out. The function returns
  the result and the solver object as the call leaves it.
\<close>

definition solve :: "real \<Rightarrow> real \<Rightarrow> solver \<Rightarrow> error + result \<times> solver" where
  "solve start_time end_time s =
     (case calculate_bound s
             \<lparr>level = 0, selected = [], total_cost = 0, total_impact = 0, bound = 0\<rparr> of
        Inl e \<Rightarrow> Inl e
      | Inr b \<Rightarrow>
          (let root = \<lparr>level = 0, selected = [], total_cost = 0, total_impact = 0, bound = b\<rparr>;
               priority_queue = heappush [] root
           in case solve_loop (s, priority_queue) of
                Inl e \<Rightarrow> Inl e
              | Inr s' \<Rightarrow>
                  (let s'' = s'\<lparr>execution_time := end_time - start_time\<rparr>
                   in case prepare_result s'' of
                        Inl e \<Rightarrow> Inl e
                      | Inr r \<Rightarrow> Inr (r, s''))))"

text \<open>\<^verbatim>\<open>BranchAndBound(projects, budget).solve()\<close>: a fresh solver, solved once.\<close>

definition construct_and_solve ::
  "real \<Rightarrow> real \<Rightarrow> project list \<Rightarrow> real \<Rightarrow> error + result" where
  "construct_and_solve start_time end_time ps b =
     (case BranchAndBound_init ps b of
        Inl e \<Rightarrow> Inl e
      | Inr s \<Rightarrow> (case solve start_time end_time s of
                   Inl e \<Rightarrow> Inl e
                 | Inr (r, s') \<Rightarrow> Inr r))"

subsection \<open>The greedy heuristic\<close>

fun greedy_loop ::
  "project list \<Rightarrow> real \<Rightarrow> project list \<Rightarrow> real \<Rightarrow> real \<Rightarrow> project list \<times> real \<times> real" where
  "greedy_loop [] b sel tc ti = (sel, tc, ti)"
| "greedy_loop (p # ps) b sel tc ti =
     (if tc + cost p \<le> b
      then greedy_loop ps b (sel @ [p]) (tc + cost p) (ti + impact p)
      else greedy_loop ps b sel tc ti)"

definition greedy_heuristic ::
  "real \<Rightarrow> real \<Rightarrow> project list \<Rightarrow> real \<Rightarrow> error + result" where
  "greedy_heuristic start_time end_time ps b =
     (let sorted_projects = sort_by_efficiency ps;
          (sel, tc, ti) = greedy_loop sorted_projects b [] 0 0
      in if b = 0 then Inl ZeroDivisionError
         else Inr (Heuristic
                \<lparr>selected_projects = sel, sol_total_cost = tc, sol_total_impact = ti,
                 budget_used_pct = tc / b * 100, n_projects_selected = length sel\<rparr>
                (end_time - start_time)))"

text \<open>The total value a result reports; a result without a solution reports none.\<close>

fun result_total_impact :: "result \<Rightarrow> real option" where
  "result_total_impact (No_solution m) = None"
| "result_total_impact (Optimal sol m d) = Some (sol_total_impact sol)"
| "result_total_impact (Heuristic sol t) = Some (sol_total_impact sol)"

fun result_total_cost :: "result \<Rightarrow> real option" where
  "result_total_cost (No_solution m) = None"
| "result_total_cost (Optimal sol m d) = Some (sol_total_cost sol)"
| "result_total_cost (Heuristic sol t) = Some (sol_total_cost sol)"

fun result_metrics :: "result \<Rightarrow> metrics option" where
  "result_metrics (No_solution m) = Some m"
| "result_metrics (Optimal sol m d) = Some m"
| "result_metrics (Heuristic sol t) = None"

section \<open>Properties\<close>

subsection \<open>The bound never divides by zero on a feasible node\<close>

lemma bound_loop_nonneg_total:
  "\<forall>p \<in> set ps. 0 \<le> cost p \<Longrightarrow> 0 \<le> r \<Longrightarrow> \<exists>b. bound_loop ps bnd r = Inr b"
  by (induction ps arbitrary: bnd r) auto

lemma bound_division_nonneg:
  "\<forall>p \<in> set ps. 0 \<le> cost p \<Longrightarrow> 0 \<le> r \<Longrightarrow> bound_division ps r = Some (num, d)
   \<Longrightarrow> 0 \<le> num \<and> num < d"
proof (induction ps arbitrary: r)
  case Nil
  then show ?case by simp
next
  case (Cons p ps)
  show ?case
  proof (cases "cost p \<le> r")
    case True
    with Cons.prems have "bound_division ps (r - cost p) = Some (num, d)" "0 \<le> r - cost p"
      by auto
    with Cons.IH[of "r - cost p"] Cons.prems(1) show ?thesis by simp
  next
    case False
    with Cons.prems show ?thesis by auto
  qed
qed

lemma bound_loop_error_iff:
  "bound_loop ps bnd r = Inl e \<longleftrightarrow> e = ZeroDivisionError \<and> (\<exists>num. bound_division ps r = Some (num, 0))"
  by (induction ps arbitrary: bnd r) auto

text \<open>A solver with a zero-cost project, as \<open>BranchAndBound_init\<close> builds it.\<close>

definition example_zero_cost :: solver where
  "example_zero_cost =
     \<lparr>projects = [Project 1 ''A'' 10 5 ''Test'', Project 2 ''Z'' 0 1 ''Test''], budget = 5,
      nodes_expanded = 0, nodes_pruned_infeasible = 0, nodes_pruned_bound = 0,
      max_depth = 0, execution_time = 0, best_solution = None, best_value = 0\<rparr>"

text \<open>
  Claim C10. On a node whose total cost is at most the budget, with non-negative project
  costs, \<open>calculate_bound\<close> raises no error, and the division it executes, if any, has
  a numerator \<open>remaining_budget \<ge> 0\<close> and a divisor \<open>cost > remaining_budget\<close>, hence a
  strictly positive divisor. The precondition is needed: on the solver built from
  \<open>A(cost 10, impact 5)\<close>, \<open>Z(cost 0, impact 1)\<close> with budget 5, the infeasible node that
  includes \<open>A\<close> reaches the division with divisor zero.
\<close>

theorem calculate_bound_no_zero_division:
  "(total_cost nd \<le> budget s \<and> (\<forall>p \<in> set (projects s). 0 \<le> cost p) \<longrightarrow>
      (\<exists>b. calculate_bound s nd = Inr b) \<and>
      (\<forall>num d. bound_division (drop (level nd) (projects s)) (budget s - total_cost nd) = Some (num, d)
          \<longrightarrow> 0 \<le> num \<and> num < d)) \<and>
   BranchAndBound_init [Project 1 ''A'' 10 5 ''Test'', Project 2 ''Z'' 0 1 ''Test''] 5
     = Inr example_zero_cost \<and>
   \<not> total_cost \<lparr>level = 1, selected = [1], total_cost = 10, total_impact = 5, bound = 0\<rparr>
       \<le> budget example_zero_cost \<and>
   calculate_bound example_zero_cost
     \<lparr>level = 1, selected = [1], total_cost = 10, total_impact = 5, bound = 0\<rparr>
     = Inl ZeroDivisionError"
proof (intro conjI impI allI)
  assume a: "total_cost nd \<le> budget s \<and> (\<forall>p \<in> set (projects s). 0 \<le> cost p)"
  then have pos: "\<forall>p \<in> set (drop (level nd) (projects s)). 0 \<le> cost p"
    by (meson in_set_dropD)
  from a have r: "0 \<le> budget s - total_cost nd" by simp
  show "\<exists>b. calculate_bound s nd = Inr b"
    unfolding calculate_bound_def by (rule bound_loop_nonneg_total[OF pos r])
  fix num d
  assume "bound_division (drop (level nd) (projects s)) (budget s - total_cost nd) = Some (num, d)"
  from bound_division_nonneg[OF pos r this] show "0 \<le> num" "num < d" by auto
next
  show "BranchAndBound_init [Project 1 ''A'' 10 5 ''Test'', Project 2 ''Z'' 0 1 ''Test''] 5
     = Inr example_zero_cost"
    by (simp add: BranchAndBound_init_def example_zero_cost_def sort_by_efficiency_def
        efficiency_def Project_def)
  show "\<not> total_cost \<lparr>level = 1, selected = [1], total_cost = 10, total_impact = 5, bound = 0\<rparr>
       \<le> budget example_zero_cost"
    by (simp add: example_zero_cost_def)
  show "calculate_bound example_zero_cost
     \<lparr>level = 1, selected = [1], total_cost = 10, total_impact = 5, bound = 0\<rparr>
     = Inl ZeroDivisionError"
    by (simp add: calculate_bound_def example_zero_cost_def Project_def)
qed

definition example_feasible_node :: node where
  "example_feasible_node = \<lparr>level = 0, selected = [], total_cost = 0, total_impact = 0, bound = 0\<rparr>"

theorem calculate_bound_no_zero_division_witness:
  "calculate_bound example_zero_cost example_feasible_node = Inr (5 / 2) \<and>
   bound_division (drop (level example_feasible_node) (projects example_zero_cost))
      (budget example_zero_cost - total_cost example_feasible_node) = Some (5, 10)"
proof -
  have pre: "total_cost example_feasible_node \<le> budget example_zero_cost
      \<and> (\<forall>p \<in> set (projects example_zero_cost). 0 \<le> cost p)"
    by (simp add: example_zero_cost_def example_feasible_node_def Project_def)
  from calculate_bound_no_zero_division[of example_feasible_node example_zero_cost] pre
  have "\<exists>b. calculate_bound example_zero_cost example_feasible_node = Inr b" by blast
  then show ?thesis
    by (simp add: calculate_bound_def example_zero_cost_def example_feasible_node_def Project_def)
qed

subsection \<open>The bound of a node that has used the whole budget\<close>

text \<open>The solver built from \<open>A(cost 5, impact 5)\<close>, \<open>Z(cost 0, impact 7)\<close> with budget 5, and
  the node that includes \<open>A\<close>: its total cost is the budget.\<close>

definition example_exhausted :: solver where
  "example_exhausted =
     \<lparr>projects = [Project 1 ''A'' 5 5 ''Test'', Project 2 ''Z'' 0 7 ''Test''], budget = 5,
      nodes_expanded = 0, nodes_pruned_infeasible = 0, nodes_pruned_bound = 0,
      max_depth = 0, execution_time = 0, best_solution = None, best_value = 0\<rparr>"

definition example_exhausted_node :: node where
  "example_exhausted_node =
     \<lparr>level = 1, selected = [1], total_cost = 5, total_impact = 5, bound = 0\<rparr>"

text \<open>
  Claim C9 as stated fails: with the whole budget used, a remaining project of cost zero
  still fits and its impact is added to the bound.
\<close>

theorem calculate_bound_exhausted_counterexample:
  "BranchAndBound_init [Project 1 ''A'' 5 5 ''Test'', Project 2 ''Z'' 0 7 ''Test''] 5
     = Inr example_exhausted \<and>
   total_cost example_exhausted_node = budget example_exhausted \<and>
   total_impact example_exhausted_node = 5 \<and>
   calculate_bound example_exhausted example_exhausted_node = Inr 12"
  by (simp add: BranchAndBound_init_def example_exhausted_def example_exhausted_node_def
      sort_by_efficiency_def efficiency_def Project_def calculate_bound_def)

text \<open>
  Claim C9, amended. For a node whose total cost equals the budget and whose next
  undecided project, if there is one, has a strictly positive cost, \<open>calculate_bound\<close>
  returns exactly the node's total impact; and so it does for every node at level \<open>n\<close>.
\<close>

theorem calculate_bound_exhausted:
  "(total_cost nd = budget s \<and>
      (level nd < n_projects s \<longrightarrow> 0 < cost (projects s ! level nd))
      \<longrightarrow> calculate_bound s nd = Inr (total_impact nd)) \<and>
   (level nd = n_projects s \<longrightarrow> calculate_bound s nd = Inr (total_impact nd))"
proof (intro conjI impI)
  assume a: "total_cost nd = budget s \<and>
      (level nd < n_projects s \<longrightarrow> 0 < cost (projects s ! level nd))"
  show "calculate_bound s nd = Inr (total_impact nd)"
  proof (cases "level nd < n_projects s")
    case True
    then have "drop (level nd) (projects s)
        = projects s ! level nd # drop (Suc (level nd)) (projects s)"
      by (simp add: n_projects_def Cons_nth_drop_Suc)
    with a True show ?thesis by (simp add: calculate_bound_def)
  next
    case False
    then show ?thesis by (simp add: calculate_bound_def n_projects_def)
  qed
next
  assume "level nd = n_projects s"
  then show "calculate_bound s nd = Inr (total_impact nd)"
    by (simp add: calculate_bound_def n_projects_def)
qed

definition example_exhausted_positive :: solver where
  "example_exhausted_positive =
     \<lparr>projects = [Project 1 ''P1'' 10 20 ''Test'', Project 2 ''P2'' 20 30 ''Test'',
                  Project 3 ''P3'' 30 40 ''Test''], budget = 30,
      nodes_expanded = 0, nodes_pruned_infeasible = 0, nodes_pruned_bound = 0,
      max_depth = 0, execution_time = 0, best_solution = None, best_value = 0\<rparr>"

theorem calculate_bound_exhausted_witness:
  "calculate_bound example_exhausted_positive
     \<lparr>level = 2, selected = [1, 2], total_cost = 30, total_impact = 50, bound = 0\<rparr> = Inr 50 \<and>
   calculate_bound example_exhausted_positive
     \<lparr>level = 3, selected = [1, 2], total_cost = 30, total_impact = 50, bound = 0\<rparr> = Inr 50"
  using calculate_bound_exhausted [of
      "\<lparr>level = 2, selected = [1, 2], total_cost = 30, total_impact = 50, bound = 0\<rparr>"
      example_exhausted_positive]
    calculate_bound_exhausted [of
      "\<lparr>level = 3, selected = [1, 2], total_cost = 30, total_impact = 50, bound = 0\<rparr>"
      example_exhausted_positive]
  by (simp add: example_exhausted_positive_def n_projects_def Project_def)

subsection \<open>Construction\<close>




subsection \<open>The counter of expanded nodes\<close>

text \<open>The solver built from the single project \<open>P1(cost 10, impact 0)\<close> with budget 100, and
  its root node, whose bound is 0.\<close>

definition example_pruned_root :: solver where
  "example_pruned_root =
     \<lparr>projects = [Project 1 ''P1'' 10 0 ''Test''], budget = 100,
      nodes_expanded = 0, nodes_pruned_infeasible = 0, nodes_pruned_bound = 0,
      max_depth = 0, execution_time = 0, best_solution = None, best_value = 0\<rparr>"

definition example_root :: node where
  "example_root = \<lparr>level = 0, selected = [], total_cost = 0, total_impact = 0, bound = 0\<rparr>"

lemma heappop_singleton [simp]: "heappop [x] = (x, [])"
  by (simp add: heappop_def)

text \<open>
  Claim C7 as stated fails: the root of this instance is popped and pruned by its bound, it
  is not expanded, and the iteration still increments \<open>nodes_expanded\<close>.
\<close>

theorem nodes_expanded_counterexample:
  "BranchAndBound_init [Project 1 ''P1'' 10 0 ''Test''] 100 = Inr example_pruned_root \<and>
   calculate_bound example_pruned_root example_root = Inr (bound example_root) \<and>
   should_prune example_pruned_root example_root
     = (example_pruned_root\<lparr>nodes_pruned_bound := 1\<rparr>, True, ''bound'') \<and>
   solve_step example_pruned_root [example_root]
     = Inr (example_pruned_root\<lparr>nodes_expanded := 1, nodes_pruned_bound := 1\<rparr>, [])"
  by (simp add: BranchAndBound_init_def example_pruned_root_def example_root_def
      sort_by_efficiency_def calculate_bound_def should_prune_def is_feasible_def
      solve_step_def Project_def)

lemma nodes_expanded_should_prune:
  "should_prune s nd = (s', pr, rs) \<Longrightarrow> nodes_expanded s' = nodes_expanded s"
  by (auto simp: should_prune_def split: if_splits)

lemma nodes_expanded_update_best_solution [simp]:
  "nodes_expanded (update_best_solution s nd) = nodes_expanded s"
  by (simp add: update_best_solution_def)

lemma nodes_expanded_add_child:
  "add_child s pq child = Inr (s', pq') \<Longrightarrow> nodes_expanded s' = nodes_expanded s"
  by (auto simp: add_child_def Let_def split: sum.splits prod.splits
      dest: nodes_expanded_should_prune)

text \<open>
  Claim C7, amended. \<open>nodes_expanded\<close> is incremented by one in every iteration of the
  loop, that is for every node popped from the frontier, whether the node is then pruned,
  is a leaf, or is expanded into its two children.
\<close>

theorem nodes_expanded_counts_pops:
  assumes "solve_step s pq = Inr (s', pq')"
  shows "nodes_expanded s' = nodes_expanded s + 1"
proof -
  obtain cur pq1 where pop: "heappop pq = (cur, pq1)" by (cases "heappop pq") auto
  obtain s3 pr rs where sp:
    "should_prune (s\<lparr>nodes_expanded := nodes_expanded s + 1,
                     max_depth := max (max_depth s) (level cur)\<rparr>) cur = (s3, pr, rs)"
    using prod_cases3 by blast
  have n3: "nodes_expanded s3 = nodes_expanded s + 1"
    using nodes_expanded_should_prune[OF sp] by simp
  note step = assms[unfolded solve_step_unfold[OF pop sp]]
  show ?thesis
  proof (cases "pr \<or> level cur = n_projects s3")
    case True
    with step n3 show ?thesis by (auto split: if_splits)
  next
    case False
    with step obtain s4 pq2 child1 child2 where
      "add_child s3 pq1 child1 = Inr (s4, pq2)" "add_child s4 pq2 child2 = Inr (s', pq')"
      by (auto split: if_splits sum.splits)
    then show ?thesis using n3 by (simp add: nodes_expanded_add_child)
  qed
qed

theorem nodes_expanded_counts_pops_witness:
  "nodes_expanded (example_pruned_root\<lparr>nodes_expanded := 1, nodes_pruned_bound := 1\<rparr>)
     = nodes_expanded example_pruned_root + 1"
proof -
  have "solve_step example_pruned_root [example_root]
     = Inr (example_pruned_root\<lparr>nodes_expanded := 1, nodes_pruned_bound := 1\<rparr>, [])"
    by (simp add: example_pruned_root_def example_root_def should_prune_def is_feasible_def
        solve_step_def Project_def)
  from nodes_expanded_counts_pops[OF this] show ?thesis .
qed

subsection \<open>Determinism\<close>

text \<open>A result with its elapsed-time fields replaced.\<close>

fun set_elapsed :: "real \<Rightarrow> result \<Rightarrow> result" where
  "set_elapsed t (No_solution m) = No_solution (m\<lparr>m_execution_time_seconds := t\<rparr>)"
| "set_elapsed t (Optimal sol m d) =
     Optimal sol (m\<lparr>m_execution_time_seconds := t\<rparr>) (d\<lparr>d_execution_time := t\<rparr>)"
| "set_elapsed t (Heuristic sol t') = Heuristic sol t"

lemma prepare_result_elapsed:
  "prepare_result (s\<lparr>execution_time := t\<rparr>)
     = map_sum id (set_elapsed t) (prepare_result (s\<lparr>execution_time := 0\<rparr>))"
  by (simp add: prepare_result_def get_metrics_def n_projects_def Let_def split: option.splits)

lemma solve_elapsed:
  "map_sum id fst (solve t0 t1 s)
     = map_sum id (set_elapsed (t1 - t0)) (map_sum id fst (solve 0 0 s))"
  by (auto simp: solve_def Let_def prepare_result_elapsed[where t = "t1 - t0"]
      split: sum.splits)

lemma construct_and_solve_fst:
  "construct_and_solve t0 t1 ps b =
     (case BranchAndBound_init ps b of Inl e \<Rightarrow> Inl e
      | Inr s \<Rightarrow> map_sum id fst (solve t0 t1 s))"
  by (auto simp: construct_and_solve_def split: sum.splits)

lemma construct_and_solve_elapsed:
  "construct_and_solve t0 t1 ps b
     = map_sum id (set_elapsed (t1 - t0)) (construct_and_solve 0 0 ps b)"
  unfolding construct_and_solve_fst
  by (cases "BranchAndBound_init ps b") (simp_all add: solve_elapsed[of t0 t1])

lemma sort_by_efficiency_idem:
  "sort_by_efficiency (sort_by_efficiency ps) = sort_by_efficiency ps"
  unfolding sort_by_efficiency_def by (rule sort_key_id_if_sorted) simp

lemma sort_by_efficiency_Nil [simp]: "sort_by_efficiency ps = [] \<longleftrightarrow> ps = []"
  by (metis length_0_conv length_sort sort_by_efficiency_def)

lemma BranchAndBound_init_sorted:
  "BranchAndBound_init (sort_by_efficiency ps) b = BranchAndBound_init ps b"
  by (simp add: BranchAndBound_init_def sort_by_efficiency_idem)

text \<open>
  Claim C6 as stated fails: the elapsed-time fields of the result are the difference of
  two clock readings, so two runs on the same projects and budget that take different
  times return different results.
\<close>

theorem solve_deterministic_counterexample:
  "construct_and_solve 0 1 [Project 1 ''P1'' 50 30 ''Test''] 100
     \<noteq> construct_and_solve 0 2 [Project 1 ''P1'' 50 30 ''Test''] 100"
  by code_simp

text \<open>
  Claim C6, amended. The result of a freshly constructed solver is a function of the
  projects and the budget in every field but the elapsed-time fields, which hold the
  difference of the two clock readings; and constructing the solver again on the list as
  the first construction left it (sorted in place) gives the same result.
\<close>

theorem solve_deterministic_up_to_time:
  "construct_and_solve t0 t1 ps b
     = map_sum id (set_elapsed (t1 - t0)) (construct_and_solve 0 0 ps b) \<and>
   construct_and_solve t0' t1' (sort_by_efficiency ps) b
     = map_sum id (set_elapsed (t1' - t0')) (construct_and_solve 0 0 ps b)"
proof
  show "construct_and_solve t0 t1 ps b
     = map_sum id (set_elapsed (t1 - t0)) (construct_and_solve 0 0 ps b)"
    by (rule construct_and_solve_elapsed)
  have "construct_and_solve 0 0 (sort_by_efficiency ps) b = construct_and_solve 0 0 ps b"
    by (simp add: construct_and_solve_def BranchAndBound_init_sorted)
  then show "construct_and_solve t0' t1' (sort_by_efficiency ps) b
     = map_sum id (set_elapsed (t1' - t0')) (construct_and_solve 0 0 ps b)"
    using construct_and_solve_elapsed[of t0' t1' "sort_by_efficiency ps" b] by simp
qed

text \<open>
  The counters and the incumbent are attributes of the solver object and \<^verbatim>\<open>solve\<close> does
  not reset them: a second call of \<^verbatim>\<open>solve\<close> on the same object starts from the counters
  of the first and reports other metrics.
\<close>

lemma solve_twice_same_object:
  "map_sum id (map_option m_nodes_expanded \<circ> result_metrics)
     (construct_and_solve 0 0 [Project 1 ''P1'' 50 30 ''Test''] 100) = Inr (Some 2) \<and>
   (case BranchAndBound_init [Project 1 ''P1'' 50 30 ''Test''] 100 of
      Inl e \<Rightarrow> Inl e
    | Inr s \<Rightarrow>
        (case solve 0 0 s of
           Inl e \<Rightarrow> Inl e
         | Inr (r, s') \<Rightarrow>
             map_sum id (map_option m_nodes_expanded \<circ> result_metrics \<circ> fst) (solve 0 0 s')))
     = Inr (Some 3)"
  by code_simp

subsection \<open>Reasoning about the loop\<close>

text \<open>The two children that \<^verbatim>\<open>solve\<close> builds from the node it expands.\<close>

definition left_child :: "solver \<Rightarrow> node \<Rightarrow> node" where
  "left_child s nd =
     \<lparr>level = level nd + 1,
      selected = selected nd @ [pid (projects s ! level nd)],
      total_cost = total_cost nd + cost (projects s ! level nd),
      total_impact = total_impact nd + impact (projects s ! level nd),
      bound = 0\<rparr>"

definition right_child :: "node \<Rightarrow> node" where
  "right_child nd =
     \<lparr>level = level nd + 1, selected = selected nd, total_cost = total_cost nd,
      total_impact = total_impact nd, bound = 0\<rparr>"

definition popped :: "solver \<Rightarrow> node \<Rightarrow> solver" where
  "popped s nd = s\<lparr>nodes_expanded := nodes_expanded s + 1,
                   max_depth := max (max_depth s) (level nd)\<rparr>"

lemma should_prune_props:
  assumes "should_prune s nd = (s', pr, rs)"
  shows "pr = (\<not> is_feasible s nd \<or> bound nd \<le> best_value s)"
    and "projects s' = projects s" and "budget s' = budget s"
    and "best_solution s' = best_solution s" and "best_value s' = best_value s"
  using assms by (auto simp: should_prune_def split: if_splits)

lemma popped_simps [simp]:
  "projects (popped s nd) = projects s" "budget (popped s nd) = budget s"
  "best_solution (popped s nd) = best_solution s" "best_value (popped s nd) = best_value s"
  "n_projects (popped s nd) = n_projects s" "is_feasible (popped s nd) x = is_feasible s x"
  by (simp_all add: popped_def n_projects_def is_feasible_def)

lemma add_child_cases:
  assumes "add_child s pq child = Inr (s', pq')"
  obtains b pr rs where "calculate_bound s child = Inr b"
    and "should_prune s (child\<lparr>bound := b\<rparr>) = (s', pr, rs)"
    and "mset pq' = (if pr then mset pq else add_mset (child\<lparr>bound := b\<rparr>) (mset pq))"
proof -
  obtain b where b: "calculate_bound s child = Inr b"
    using assms by (auto simp: add_child_def split: sum.splits)
  obtain s1 pr rs where sp: "should_prune s (child\<lparr>bound := b\<rparr>) = (s1, pr, rs)"
    using prod_cases3 by blast
  from assms have "s' = s1" "pq' = (if \<not> pr then heappush pq (child\<lparr>bound := b\<rparr>) else pq)"
    by (auto simp: add_child_def b sp Let_def)
  then show ?thesis using that[OF b, of pr rs] sp by (simp add: mset_heappush)
qed

lemma solve_step_cases:
  assumes "pq \<noteq> []" and "solve_step s pq = Inr (s', pq')"
  obtains (pruned) cur pq1 rs where "mset pq = add_mset cur (mset pq1)"
      and "should_prune (popped s cur) cur = (s', True, rs)" and "pq' = pq1"
  | (leaf) cur pq1 s3 rs where "mset pq = add_mset cur (mset pq1)"
      and "should_prune (popped s cur) cur = (s3, False, rs)"
      and "level cur = n_projects s" and "s' = update_best_solution s3 cur" and "pq' = pq1"
  | (expand) cur pq1 s3 rs s4 pq2 where "mset pq = add_mset cur (mset pq1)"
      and "should_prune (popped s cur) cur = (s3, False, rs)"
      and "level cur < n_projects s"
      and "add_child s3 pq1 (left_child s3 cur) = Inr (s4, pq2)"
      and "add_child s4 pq2 (right_child cur) = Inr (s', pq')"
proof -
  obtain cur pq1 where pop: "heappop pq = (cur, pq1)" by (cases "heappop pq") auto
  from mset_heappop[OF assms(1) pop] have ms: "mset pq = add_mset cur (mset pq1)" .
  obtain s3 pr rs where sp: "should_prune (popped s cur) cur = (s3, pr, rs)"
    using prod_cases3 by blast
  have n3: "n_projects s3 = n_projects s"
    using should_prune_props(2)[OF sp] by (simp add: n_projects_def)
  note step = assms(2)[unfolded solve_step_unfold[OF pop sp[unfolded popped_def]],
      folded left_child_def right_child_def]
  show ?thesis
  proof (cases pr)
    case True
    with step sp show ?thesis using pruned[OF ms, of rs] by simp
  next
    case False
    show ?thesis
    proof (cases "level cur = n_projects s")
      case True
      with step sp False n3 show ?thesis using leaf[OF ms, of s3 rs] by simp
    next
      case ne: False
      with step False n3 have lt: "level cur < n_projects s" by (auto split: if_splits)
      with step False n3 ne obtain s4 pq2 where
        "add_child s3 pq1 (left_child s3 cur) = Inr (s4, pq2)"
        "add_child s4 pq2 (right_child cur) = Inr (s', pq')"
        by (auto split: sum.splits)
      with sp False lt show ?thesis using expand[OF ms, of s3 rs s4 pq2] by simp
    qed
  qed
qed

lemma solve_loop_rule:
  assumes "solve_loop (s, pq) = Inr s'" and "I s pq"
    and "\<And>s pq s' pq'. I s pq \<Longrightarrow> pq \<noteq> [] \<Longrightarrow> solve_step s pq = Inr (s', pq') \<Longrightarrow> I s' pq'"
  shows "I s' []"
  using assms(1,2)
proof (induction "(s, pq)" arbitrary: s pq rule: solve_loop.induct)
  case (1 s pq)
  show ?case
  proof (cases "pq = []")
    case True
    with "1.prems" show ?thesis by (simp add: solve_loop.simps)
  next
    case False
    with "1.prems"(1) obtain s1 pq1 where st: "solve_step s pq = Inr (s1, pq1)"
      and l: "solve_loop (s1, pq1) = Inr s'"
      by (subst (asm) solve_loop.simps) (auto split: sum.splits)
    from assms(3)[OF "1.prems"(2) False st] have "I s1 pq1" .
    from "1.hyps"[OF False st refl l this] show ?thesis .
  qed
qed

lemma solve_loop_total_rule:
  assumes "I s pq"
    and "\<And>s pq s' pq'. I s pq \<Longrightarrow> pq \<noteq> [] \<Longrightarrow> solve_step s pq = Inr (s', pq') \<Longrightarrow> I s' pq'"
    and "\<And>s pq. I s pq \<Longrightarrow> pq \<noteq> [] \<Longrightarrow> \<exists>x. solve_step s pq = Inr x"
  shows "\<exists>s'. solve_loop (s, pq) = Inr s' \<and> I s' []"
  using assms(1)
proof (induction "(s, pq)" arbitrary: s pq rule: solve_loop.induct)
  case (1 s pq)
  show ?case
  proof (cases "pq = []")
    case True
    with "1.prems" show ?thesis by (simp add: solve_loop.simps)
  next
    case False
    from assms(3)[OF "1.prems" False] obtain s1 pq1 where st: "solve_step s pq = Inr (s1, pq1)"
      by auto
    from assms(2)[OF "1.prems" False st] have "I s1 pq1" .
    from "1.hyps"[OF False st refl this] obtain s' where
      "solve_loop (s1, pq1) = Inr s'" "I s' []" by auto
    then show ?thesis using False st by (subst solve_loop.simps) simp
  qed
qed

subsection \<open>The outcome without a solution\<close>

lemma update_best_solution_simps [simp]:
  "budget (update_best_solution s nd) = budget s"
  by (simp add: update_best_solution_def)

lemma bound_loop_all_exceed:
  "\<forall>p \<in> set ps. b < cost p \<Longrightarrow> 0 < b \<Longrightarrow> r \<le> b \<Longrightarrow> \<exists>x. bound_loop ps bnd r = Inr x"
  by (cases ps) auto

lemma calculate_bound_all_exceed:
  assumes "\<forall>p \<in> set (projects s). budget s < cost p" "0 < budget s" "0 \<le> total_cost nd"
  shows "\<exists>x. calculate_bound s nd = Inr x"
proof -
  from assms(1) have "\<forall>p \<in> set (drop (level nd) (projects s)). budget s < cost p"
    by (meson in_set_dropD)
  from bound_loop_all_exceed[OF this assms(2)] assms(3) show ?thesis
    by (simp add: calculate_bound_def)
qed

text \<open>The invariant of the loop when every project costs more than the budget: no
  incumbent is ever set, and every node of the frontier has selected nothing.\<close>

definition nothing_fits_inv :: "project list \<Rightarrow> real \<Rightarrow> solver \<Rightarrow> node list \<Rightarrow> bool" where
  "nothing_fits_inv ps b s pq =
     (projects s = ps \<and> budget s = b \<and> best_solution s = None \<and> best_value s = 0 \<and>
      list_all (\<lambda>nd. total_cost nd = 0 \<and> total_impact nd = 0 \<and> level nd \<le> length ps) pq)"

lemma nothing_fits_inv_mset:
  "nothing_fits_inv ps b s pq =
     (projects s = ps \<and> budget s = b \<and> best_solution s = None \<and> best_value s = 0 \<and>
      (\<forall>nd \<in># mset pq. total_cost nd = 0 \<and> total_impact nd = 0 \<and> level nd \<le> length ps))"
  by (simp add: nothing_fits_inv_def list_all_iff)

lemma nothing_fits_add_child:
  assumes "add_child s pq child = Inr (s', pq')" and "nothing_fits_inv ps b s pq"
    and "total_cost child = 0 \<and> total_impact child = 0 \<and> level child \<le> length ps
         \<or> b < total_cost child"
  shows "nothing_fits_inv ps b s' pq'"
proof -
  from assms(1) obtain bd pr rs where sp: "should_prune s (child\<lparr>bound := bd\<rparr>) = (s', pr, rs)"
    and ms: "mset pq' = (if pr then mset pq else add_mset (child\<lparr>bound := bd\<rparr>) (mset pq))"
    by (rule add_child_cases)
  note props = should_prune_props[OF sp]
  from assms(2) have "budget s = b" by (simp add: nothing_fits_inv_def)
  with assms(3) props(1) have "pr \<or> total_cost child = 0 \<and> total_impact child = 0
      \<and> level child \<le> length ps"
    by (auto simp: is_feasible_def)
  with assms(2) props(2-5) ms show ?thesis
    by (auto simp: nothing_fits_inv_mset split: if_splits)
qed

lemma nothing_fits_step:
  assumes ex: "\<forall>p \<in> set ps. b < cost p"
    and inv: "nothing_fits_inv ps b s pq" and ne: "pq \<noteq> []"
    and st: "solve_step s pq = Inr (s', pq')"
  shows "nothing_fits_inv ps b s' pq'"
  using ne st
proof (cases rule: solve_step_cases)
  case (pruned cur pq1 rs)
  with inv should_prune_props(2-5)[OF pruned(2)] show ?thesis
    by (simp add: nothing_fits_inv_mset)
next
  case (leaf cur pq1 s3 rs)
  with inv have "total_impact cur = 0" by (simp add: nothing_fits_inv_mset)
  with leaf inv should_prune_props(2-5)[OF leaf(2)] show ?thesis
    by (simp add: nothing_fits_inv_mset update_best_solution_def)
next
  case (expand cur pq1 s3 rs s4 pq2)
  note p3 = should_prune_props(2-5)[OF expand(2)]
  from inv expand(1) have cur: "total_cost cur = 0" "total_impact cur = 0"
    and ps: "projects s = ps" by (simp_all add: nothing_fits_inv_mset)
  from inv expand(1) p3 have i3: "nothing_fits_inv ps b s3 pq1"
    by (simp add: nothing_fits_inv_mset)
  from expand(3) ps have lt: "level cur < length ps" by (simp add: n_projects_def)
  then have "projects s3 ! level cur \<in> set ps" using p3(1) ps by simp
  with ex cur have "b < total_cost (left_child s3 cur)" by (simp add: left_child_def)
  from nothing_fits_add_child[OF expand(4) i3] this
  have i4: "nothing_fits_inv ps b s4 pq2" by simp
  from lt cur have "total_cost (right_child cur) = 0 \<and> total_impact (right_child cur) = 0
      \<and> level (right_child cur) \<le> length ps"
    by (simp add: right_child_def)
  from nothing_fits_add_child[OF expand(5) i4] this show ?thesis by simp
qed

lemma add_child_total:
  assumes "\<exists>x. calculate_bound s child = Inr x"
  shows "\<exists>x. add_child s pq child = Inr x"
  using assms by (auto simp: add_child_def Let_def split: prod.splits)

lemma nothing_fits_step_total:
  assumes ex: "\<forall>p \<in> set ps. b < cost p" and b: "0 < b"
    and inv: "nothing_fits_inv ps b s pq" and ne: "pq \<noteq> []"
  shows "\<exists>x. solve_step s pq = Inr x"
proof -
  obtain cur pq1 where pop: "heappop pq = (cur, pq1)" by (cases "heappop pq") auto
  from mset_heappop[OF ne pop] have ms: "mset pq = add_mset cur (mset pq1)" .
  obtain s3 pr rs where sp: "should_prune (popped s cur) cur = (s3, pr, rs)"
    using prod_cases3 by blast
  note p3 = should_prune_props(2-5)[OF sp]
  from inv ms have cur: "total_cost cur = 0" "level cur \<le> length ps"
    and ps: "projects s = ps" "budget s = b" by (simp_all add: nothing_fits_inv_mset)
  note unf = solve_step_unfold[OF pop sp[unfolded popped_def], folded left_child_def right_child_def]
  show ?thesis
  proof (cases "pr \<or> level cur = n_projects s3")
    case True
    then show ?thesis by (auto simp: unf)
  next
    case False
    with cur ps p3 have lt: "level cur < length ps" by (simp add: n_projects_def)
    then have "projects s3 ! level cur \<in> set ps" using p3(1) ps by simp
    with ex b cur have "0 \<le> total_cost (left_child s3 cur)" by (force simp: left_child_def)
    from calculate_bound_all_exceed[OF _ _ this, of s3] ex b p3 ps
    obtain s4 pq2 where l: "add_child s3 pq1 (left_child s3 cur) = Inr (s4, pq2)"
      using add_child_total[of s3 "left_child s3 cur" pq1] by auto
    from l obtain bd pr' rs' where "should_prune s3 ((left_child s3 cur)\<lparr>bound := bd\<rparr>) = (s4, pr', rs')"
      by (rule add_child_cases)
    note p4 = should_prune_props(2-5)[OF this]
    from cur have "0 \<le> total_cost (right_child cur)" by (simp add: right_child_def)
    from calculate_bound_all_exceed[OF _ _ this, of s4] ex b p3 p4 ps
    have "\<exists>x. add_child s4 pq2 (right_child cur) = Inr x"
      using add_child_total[of s4 "right_child cur" pq2] by auto
    with False lt p3 ps l show ?thesis by (auto simp: unf n_projects_def)
  qed
qed

lemma solve_nothing_fits:
  assumes ex: "\<forall>p \<in> set (projects s). budget s < cost p" and b: "0 < budget s"
    and fresh: "best_solution s = None" "best_value s = 0"
  shows "\<exists>m s'. solve t0 t1 s = Inr (No_solution m, s')"
proof -
  let ?zero = "\<lparr>level = 0, selected = [], total_cost = 0, total_impact = 0, bound = 0\<rparr>"
  from calculate_bound_all_exceed[OF ex b, of ?zero]
  obtain bd where bd: "calculate_bound s ?zero = Inr bd" by auto
  let ?root = "\<lparr>level = 0, selected = [], total_cost = 0, total_impact = 0, bound = bd\<rparr>"
  have "mset (heappush [] ?root) = {#?root#}" by (simp add: mset_heappush)
  with fresh have inv: "nothing_fits_inv (projects s) (budget s) s (heappush [] ?root)"
    by (simp add: nothing_fits_inv_mset)
  have "\<exists>s'. solve_loop (s, heappush [] ?root) = Inr s'
      \<and> nothing_fits_inv (projects s) (budget s) s' []"
  proof (rule solve_loop_total_rule[where I = "nothing_fits_inv (projects s) (budget s)"])
    show "nothing_fits_inv (projects s) (budget s) s (heappush [] ?root)" by (rule inv)
  next
    fix s1 pq1 s2 pq2
    assume "nothing_fits_inv (projects s) (budget s) s1 pq1" "pq1 \<noteq> []"
      "solve_step s1 pq1 = Inr (s2, pq2)"
    then show "nothing_fits_inv (projects s) (budget s) s2 pq2"
      by (rule nothing_fits_step[OF ex])
  next
    fix s1 pq1
    assume "nothing_fits_inv (projects s) (budget s) s1 pq1" "pq1 \<noteq> []"
    then show "\<exists>x. solve_step s1 pq1 = Inr x"
      by (rule nothing_fits_step_total[OF ex b])
  qed
  then obtain s' where l: "solve_loop (s, heappush [] ?root) = Inr s'"
    and i: "nothing_fits_inv (projects s) (budget s) s' []" by blast
  from i have "best_solution s' = None" by (simp add: nothing_fits_inv_def)
  with bd l show ?thesis by (simp add: solve_def Let_def prepare_result_def)
qed

text \<open>An incumbent always has a strictly positive value.\<close>

definition incumbent_positive :: "solver \<Rightarrow> node list \<Rightarrow> bool" where
  "incumbent_positive s pq =
     (0 \<le> best_value s \<and>
      (case best_solution s of None \<Rightarrow> True | Some nd \<Rightarrow> 0 < total_impact nd))"

lemma incumbent_positive_should_prune:
  "should_prune s nd = (s', pr, rs) \<Longrightarrow> incumbent_positive s' pq' = incumbent_positive s pq"
  by (auto simp: should_prune_def incumbent_positive_def split: if_splits)

lemma incumbent_positive_add_child:
  assumes "add_child s pq child = Inr (s', pq')"
  shows "incumbent_positive s' pq' = incumbent_positive s pq"
  using assms by (rule add_child_cases) (rule incumbent_positive_should_prune)

lemma incumbent_positive_step:
  assumes inv: "incumbent_positive s pq" and ne: "pq \<noteq> []"
    and st: "solve_step s pq = Inr (s', pq')"
  shows "incumbent_positive s' pq'"
  using ne st
proof (cases rule: solve_step_cases)
  case (pruned cur pq1 rs)
  from incumbent_positive_should_prune[OF pruned(2), of pq' pq] inv show ?thesis
    by (simp add: incumbent_positive_def popped_def)
next
  case (leaf cur pq1 s3 rs)
  from incumbent_positive_should_prune[OF leaf(2), of pq' pq] inv
  have "incumbent_positive s3 pq'" by (simp add: incumbent_positive_def popped_def)
  then show ?thesis using leaf(4)
    by (auto simp: incumbent_positive_def update_best_solution_def)
next
  case (expand cur pq1 s3 rs s4 pq2)
  from incumbent_positive_should_prune[OF expand(2), of pq pq] inv
  have "incumbent_positive s3 pq" by (simp add: incumbent_positive_def popped_def)
  then show ?thesis
    using incumbent_positive_add_child[OF expand(4)] incumbent_positive_add_child[OF expand(5)]
    by (simp add: incumbent_positive_def)
qed

lemma solve_optimal_positive:
  assumes "solve t0 t1 s = Inr (Optimal sol m d, s')"
    and fresh: "best_solution s = None" "best_value s = 0"
  shows "0 < sol_total_impact sol"
proof -
  let ?zero = "\<lparr>level = 0, selected = [], total_cost = 0, total_impact = 0, bound = 0\<rparr>"
  from assms(1) obtain bd s1 where bd: "calculate_bound s ?zero = Inr bd"
    and l: "solve_loop (s, heappush [] \<lparr>level = 0, selected = [], total_cost = 0,
               total_impact = 0, bound = bd\<rparr>) = Inr s1"
    and r: "prepare_result (s1\<lparr>execution_time := t1 - t0\<rparr>) = Inr (Optimal sol m d)"
    by (auto simp: solve_def Let_def split: sum.splits)
  from fresh have "incumbent_positive s (heappush [] \<lparr>level = 0, selected = [], total_cost = 0,
               total_impact = 0, bound = bd\<rparr>)"
    by (simp add: incumbent_positive_def)
  with l have "incumbent_positive s1 []"
    by (rule solve_loop_rule[where I = incumbent_positive]) (rule incumbent_positive_step)
  with r show ?thesis
    by (auto simp: prepare_result_def incumbent_positive_def Let_def split: option.splits if_splits)
qed

lemma set_sort_by_efficiency [simp]: "set (sort_by_efficiency ps) = set ps"
  by (simp add: sort_by_efficiency_def)

lemma construct_and_solve_nothing_fits:
  assumes "ps \<noteq> []" and "0 < b" and "\<forall>p \<in> set ps. b < cost p"
  shows "\<exists>m. construct_and_solve t0 t1 ps b = Inr (No_solution m)"
proof -
  from assms(1,2) obtain s where s: "BranchAndBound_init ps b = Inr s"
    and f: "projects s = sort_by_efficiency ps" "budget s = b" "best_solution s = None"
      "best_value s = 0"
    by (simp add: BranchAndBound_init_def)
  from solve_nothing_fits[of s t0 t1] assms(2,3) f
  obtain m s' where "solve t0 t1 s = Inr (No_solution m, s')" by auto
  with s show ?thesis by (simp add: construct_and_solve_def)
qed

lemma construct_and_solve_optimal_positive:
  assumes "construct_and_solve t0 t1 ps b = Inr (Optimal sol m d)"
  shows "0 < sol_total_impact sol"
proof -
  from assms obtain s s' where s: "BranchAndBound_init ps b = Inr s"
    and sv: "solve t0 t1 s = Inr (Optimal sol m d, s')"
    by (auto simp: construct_and_solve_def split: sum.splits)
  from s have "best_solution s = None" "best_value s = 0"
    by (auto simp: BranchAndBound_init_def split: if_splits)
  from solve_optimal_positive[OF sv this] show ?thesis .
qed

subsection \<open>Optimality and zero-cost projects\<close>

text \<open>
  The knapsack problem the solver is to solve, in the words of the specification: a
  selection is a sub-list of the projects, it is feasible when its summed cost is at most
  the budget, and the optimum is the greatest summed impact of a feasible selection.
\<close>

definition selection_cost :: "project list \<Rightarrow> real" where
  "selection_cost sel = sum_list (map cost sel)"

definition selection_impact :: "project list \<Rightarrow> real" where
  "selection_impact sel = sum_list (map impact sel)"

definition feasible_selections :: "project list \<Rightarrow> real \<Rightarrow> project list list" where
  "feasible_selections ps b = filter (\<lambda>sel. selection_cost sel \<le> b) (subseqs ps)"

definition optimal_impact :: "project list \<Rightarrow> real \<Rightarrow> real" where
  "optimal_impact ps b = Max (set (map selection_impact (feasible_selections ps b)))"

text \<open>
  An instance with a project of cost zero. \<^verbatim>\<open>Project.__post_init__\<close> gives that project the
  efficiency 0, so the sort puts it last, behind projects that the bound's loop may stop at.
\<close>

definition zero_cost_instance :: "project list" where
  "zero_cost_instance =
     [Project 1 ''A'' 3 12 ''Test'', Project 2 ''B'' 4 8 ''Test'',
      Project 3 ''L'' 1 1 ''Test'', Project 4 ''Z'' 0 100 ''Test'']"

definition zero_cost_solver :: solver where
  "zero_cost_solver =
     \<lparr>projects = zero_cost_instance, budget = 5,
      nodes_expanded = 0, nodes_pruned_infeasible = 0, nodes_pruned_bound = 0,
      max_depth = 0, execution_time = 0, best_solution = None, best_value = 0\<rparr>"

definition zero_cost_node :: node where
  "zero_cost_node = \<lparr>level = 1, selected = [1], total_cost = 3, total_impact = 12, bound = 0\<rparr>"

text \<open>
  Claim C1 on the zero-cost instance with budget 5: \<^verbatim>\<open>solve\<close> reports the status
  \<^verbatim>\<open>optimal\<close> with total impact 109 and total cost 5, while the selection of \<open>A\<close>, \<open>L\<close>
  and \<open>Z\<close> costs 4 and has impact 113, which is the optimum.
\<close>

theorem solve_zero_cost_not_optimal:
  "map_sum id status (construct_and_solve 0 0 zero_cost_instance 5) = Inr ''optimal'' \<and>
   map_sum id result_total_impact (construct_and_solve 0 0 zero_cost_instance 5)
     = Inr (Some 109) \<and>
   map_sum id result_total_cost (construct_and_solve 0 0 zero_cost_instance 5)
     = Inr (Some 5) \<and>
   optimal_impact zero_cost_instance 5 = 113"
  by code_simp

text \<open>
  Claim C2 on the same instance: the projects are in the order of the sort, costs and
  impacts are non-negative, the node that includes \<open>A\<close> at level 1 carries the exact sums
  and is feasible; completing it with \<open>L\<close> and \<open>Z\<close> keeps the cost at 4 and reaches the
  impact 113, and \<open>calculate_bound\<close> returns 16 for the node.
\<close>

theorem calculate_bound_zero_cost_unsound:
  "BranchAndBound_init zero_cost_instance 5 = Inr zero_cost_solver \<and>
   sorted (map (\<lambda>p. - efficiency p) (projects zero_cost_solver)) \<and>
   list_all (\<lambda>p. 0 \<le> cost p \<and> 0 \<le> impact p) (projects zero_cost_solver) \<and>
   total_cost zero_cost_node = selection_cost [zero_cost_instance ! 0] \<and>
   total_impact zero_cost_node = selection_impact [zero_cost_instance ! 0] \<and>
   total_cost zero_cost_node \<le> budget zero_cost_solver \<and>
   [zero_cost_instance ! 2, zero_cost_instance ! 3]
     \<in> set (subseqs (drop (level zero_cost_node) (projects zero_cost_solver))) \<and>
   total_cost zero_cost_node
     + selection_cost [zero_cost_instance ! 2, zero_cost_instance ! 3] = 4 \<and>
   total_impact zero_cost_node
     + selection_impact [zero_cost_instance ! 2, zero_cost_instance ! 3] = 113 \<and>
   calculate_bound zero_cost_solver zero_cost_node = Inr 16"
  by code_simp

text \<open>
  Claim C5. On the instance \<open>A(6, 10)\<close>, \<open>B(5, 8)\<close>, \<open>C(5, 8)\<close> with budget 10 the greedy
  heuristic returns 10 and \<^verbatim>\<open>solve\<close> returns 16, as the claim says. On the zero-cost instance
  with budget 5 the greedy heuristic returns 113 and \<^verbatim>\<open>solve\<close> returns 109, less than the
  heuristic.
\<close>

theorem solve_zero_cost_below_greedy:
  "map_sum id result_total_impact
     (greedy_heuristic 0 0
        [Project 1 ''A'' 6 10 ''Test'', Project 2 ''B'' 5 8 ''Test'',
         Project 3 ''C'' 5 8 ''Test''] 10) = Inr (Some 10) \<and>
   map_sum id result_total_impact
     (construct_and_solve 0 0
        [Project 1 ''A'' 6 10 ''Test'', Project 2 ''B'' 5 8 ''Test'',
         Project 3 ''C'' 5 8 ''Test''] 10) = Inr (Some 16) \<and>
   map_sum id result_total_impact (greedy_heuristic 0 0 zero_cost_instance 5)
     = Inr (Some 113) \<and>
   map_sum id result_total_impact (construct_and_solve 0 0 zero_cost_instance 5)
     = Inr (Some 109)"
  by code_simp

text \<open>
  Claim C8 on the zero-cost instance: with budget 4 \<^verbatim>\<open>solve\<close> returns the total impact 113,
  with the larger budget 5 it returns 109.
\<close>

theorem solve_zero_cost_not_monotone:
  "map_sum id result_total_impact (construct_and_solve 0 0 zero_cost_instance 4)
     = Inr (Some 113) \<and>
   map_sum id result_total_impact (construct_and_solve 0 0 zero_cost_instance 5)
     = Inr (Some 109)"
  by code_simp

text \<open>A zero-cost project can also make \<^verbatim>\<open>solve\<close> raise: the bound of an infeasible left
  child divides by the zero cost of the project that follows.\<close>

lemma solve_zero_cost_raises:
  "construct_and_solve 0 0
     [Project 1 ''A'' 10 5 ''Test'', Project 2 ''Z'' 0 1 ''Test''] 5 = Inl ZeroDivisionError"
  by code_simp

subsection \<open>The bound is an upper bound when every cost is positive\<close>

text \<open>The value that the loop of \<open>calculate_bound\<close> adds to the impact of the node.\<close>

fun relaxation :: "project list \<Rightarrow> real \<Rightarrow> real" where
  "relaxation [] r = 0"
| "relaxation (p # ps) r =
     (if cost p \<le> r then impact p + relaxation ps (r - cost p)
      else impact p * (r / cost p))"

lemma bound_loop_relaxation:
  "\<forall>p \<in> set ps. 0 < cost p \<Longrightarrow> bound_loop ps bnd r = Inr (bnd + relaxation ps r)"
  by (induction ps arbitrary: bnd r) auto

lemma relaxation_zero: "\<forall>p \<in> set ps. 0 < cost p \<Longrightarrow> relaxation ps 0 = 0"
  by (cases ps) auto

lemma in_subseqs_Cons:
  "sel \<in> set (subseqs (p # ps)) \<longleftrightarrow>
     (\<exists>sel'. sel = p # sel' \<and> sel' \<in> set (subseqs ps)) \<or> sel \<in> set (subseqs ps)"
  by (auto simp: Let_def)

lemma subseqs_set: "sel \<in> set (subseqs ps) \<Longrightarrow> set sel \<subseteq> set ps"
  using subseqs_powset[of ps] by blast

lemma selection_cost_simps [simp]:
  "selection_cost [] = 0" "selection_cost (p # ps) = cost p + selection_cost ps"
  "selection_cost (xs @ ys) = selection_cost xs + selection_cost ys"
  by (simp_all add: selection_cost_def)

lemma selection_impact_simps [simp]:
  "selection_impact [] = 0" "selection_impact (p # ps) = impact p + selection_impact ps"
  "selection_impact (xs @ ys) = selection_impact xs + selection_impact ys"
  by (simp_all add: selection_impact_def)

lemma selection_cost_nonneg: "\<forall>p \<in> set sel. 0 \<le> cost p \<Longrightarrow> 0 \<le> selection_cost sel"
  by (induction sel) auto

lemma selection_impact_nonneg: "\<forall>p \<in> set sel. 0 \<le> impact p \<Longrightarrow> 0 \<le> selection_impact sel"
  by (induction sel) auto

lemma selection_impact_ratio:
  "\<forall>p \<in> set sel. impact p \<le> \<rho> * cost p \<Longrightarrow> selection_impact sel \<le> \<rho> * selection_cost sel"
  by (induction sel) (auto simp: algebra_simps)

text \<open>Raising the remaining budget raises the relaxation by at most the best ratio of
  impact to cost times the raise.\<close>

lemma relaxation_lipschitz:
  assumes "\<forall>p \<in> set ps. 0 < cost p \<and> impact p \<le> \<rho> * cost p"
    and "0 \<le> \<rho>" and "0 \<le> r" and "r \<le> r'"
  shows "relaxation ps r' \<le> relaxation ps r + \<rho> * (r' - r)"
  using assms
proof (induction ps arbitrary: r r')
  case Nil
  then show ?case by simp
next
  case (Cons p ps)
  define c v q where "c = cost p" and "v = impact p" and "q = impact p / cost p"
  from Cons.prems(1) have c: "0 < c" and vc: "v \<le> \<rho> * c"
    and rest: "\<forall>p \<in> set ps. 0 < cost p \<and> impact p \<le> \<rho> * cost p"
    by (simp_all add: c_def v_def)
  from c vc have q: "q \<le> \<rho>" by (simp add: q_def c_def v_def pos_divide_le_eq)
  have v: "v = q * c" using c by (simp add: q_def c_def v_def)
  have frac: "v * (x / c) = q * x" for x by (simp add: q_def c_def v_def)
  consider "c \<le> r" | "r < c" "c \<le> r'" | "r' < c" by linarith
  then show ?case
  proof cases
    case 1
    with Cons.prems(4) have "c \<le> r'" by simp
    moreover from Cons.IH[OF rest Cons.prems(2), of "r - c" "r' - c"] 1 Cons.prems(4)
    have "relaxation ps (r' - c) \<le> relaxation ps (r - c) + \<rho> * (r' - r)" by simp
    ultimately show ?thesis using 1 by (simp add: c_def[symmetric] v_def[symmetric])
  next
    case 2
    from rest have "\<forall>p \<in> set ps. 0 < cost p" by simp
    then have z: "relaxation ps 0 = 0" by (rule relaxation_zero)
    from Cons.IH[OF rest Cons.prems(2), of 0 "r' - c"] 2 z
    have ih: "relaxation ps (r' - c) \<le> \<rho> * (r' - c)" by simp
    from q 2 have "0 \<le> (\<rho> - q) * (c - r)" by simp
    then have "q * c + \<rho> * (r' - c) \<le> q * r + \<rho> * (r' - r)"
      by (simp add: algebra_simps)
    moreover have "v * (r / c) = q * r" by (rule frac)
    moreover note ih v
    ultimately have "v + relaxation ps (r' - c) \<le> v * (r / c) + \<rho> * (r' - r)"
      by linarith
    then show ?thesis using 2 by (simp add: c_def[symmetric] v_def[symmetric])
  next
    case 3
    with Cons.prems(4) have "r < c" by simp
    from q Cons.prems(4) have "0 \<le> (\<rho> - q) * (r' - r)" by simp
    then have "q * r' \<le> q * r + \<rho> * (r' - r)" by (simp add: algebra_simps)
    then have "v * (r' / c) \<le> v * (r / c) + \<rho> * (r' - r)" by (simp only: frac)
    moreover have "relaxation (p # ps) r' = v * (r' / c)" "relaxation (p # ps) r = v * (r / c)"
      using 3 \<open>r < c\<close> by (simp_all add: c_def v_def)
    ultimately show ?thesis by simp
  qed
qed

text \<open>The projects in the order of the sort, every cost positive, every impact non-negative.\<close>

definition positive_instance :: "project list \<Rightarrow> bool" where
  "positive_instance ps =
     (sorted (map (\<lambda>p. - efficiency p) ps) \<and> list_all (\<lambda>p. 0 < cost p \<and> 0 \<le> impact p) ps)"

lemma positive_instance_Cons:
  assumes "positive_instance (p # ps)"
  shows "positive_instance ps" and "0 < cost p" and "0 \<le> impact p"
    and "\<forall>q \<in> set (p # ps). 0 < cost q \<and> impact q \<le> (impact p / cost p) * cost q"
proof -
  from assms show pi: "positive_instance ps" and c: "0 < cost p" and v: "0 \<le> impact p"
    by (simp_all add: positive_instance_def)
  show "\<forall>q \<in> set (p # ps). 0 < cost q \<and> impact q \<le> (impact p / cost p) * cost q"
  proof
    fix q assume q: "q \<in> set (p # ps)"
    with assms have cq: "0 < cost q" by (auto simp: positive_instance_def list_all_iff)
    from q assms have "efficiency q \<le> efficiency p"
      by (auto simp: positive_instance_def)
    with c cq have "impact q / cost q \<le> impact p / cost p" by (simp add: efficiency_def)
    with cq show "0 < cost q \<and> impact q \<le> (impact p / cost p) * cost q"
      by (simp add: pos_divide_le_eq)
  qed
qed

lemma relaxation_upper_bound:
  assumes "positive_instance ps" and "0 \<le> r"
    and "sel \<in> set (subseqs ps)" and "selection_cost sel \<le> r"
  shows "selection_impact sel \<le> relaxation ps r"
  using assms
proof (induction ps arbitrary: sel r)
  case Nil
  then show ?case by simp
next
  case (Cons p ps)
  note pi = positive_instance_Cons[OF Cons.prems(1)]
  define \<rho> where "\<rho> = impact p / cost p"
  from pi(2,3) have rho: "0 \<le> \<rho>" by (simp add: \<rho>_def)
  from pi(4) have ratio: "\<forall>q \<in> set (p # ps). 0 < cost q \<and> impact q \<le> \<rho> * cost q"
    by (simp add: \<rho>_def)
  show ?case
  proof (cases "cost p \<le> r")
    case True
    from Cons.prems(3) consider sel' where "sel = p # sel'" "sel' \<in> set (subseqs ps)"
      | "sel \<in> set (subseqs ps)"
      unfolding in_subseqs_Cons by blast
    then show ?thesis
    proof cases
      case 1
      with Cons.prems(4) have "selection_cost sel' \<le> r - cost p" by simp
      from Cons.IH[OF pi(1) _ 1(2) this] True
      have "selection_impact sel' \<le> relaxation ps (r - cost p)" by simp
      with 1 True show ?thesis by simp
    next
      case 2
      from Cons.IH[OF pi(1) Cons.prems(2) 2 Cons.prems(4)]
      have "selection_impact sel \<le> relaxation ps r" .
      also from relaxation_lipschitz[of ps \<rho> "r - cost p" r] ratio rho True pi(2)
      have "relaxation ps r \<le> relaxation ps (r - cost p) + \<rho> * cost p" by simp
      also have "\<rho> * cost p = impact p" using pi(2) by (simp add: \<rho>_def)
      finally show ?thesis using True by simp
    qed
  next
    case False
    from subseqs_set[OF Cons.prems(3)] ratio
    have "\<forall>q \<in> set sel. impact q \<le> \<rho> * cost q" by blast
    then have "selection_impact sel \<le> \<rho> * selection_cost sel"
      by (rule selection_impact_ratio)
    also have "\<dots> \<le> \<rho> * r" using rho Cons.prems(4) by (rule mult_left_mono[rotated])
    also have "\<rho> * r = impact p * (r / cost p)" by (simp add: \<rho>_def)
    finally show ?thesis using False by simp
  qed
qed

lemma positive_instance_drop: "positive_instance ps \<Longrightarrow> positive_instance (drop k ps)"
  unfolding positive_instance_def
  by (auto simp: list_all_iff drop_map[symmetric] sorted_wrt_drop dest: in_set_dropD)

lemma calculate_bound_positive:
  assumes "list_all (\<lambda>p. 0 < cost p \<and> 0 \<le> impact p) (projects s)"
  shows "calculate_bound s nd
    = Inr (total_impact nd + relaxation (drop (level nd) (projects s)) (budget s - total_cost nd))"
  unfolding calculate_bound_def using assms
  by (intro bound_loop_relaxation) (auto simp: list_all_iff dest: in_set_dropD)

text \<open>
  For a solver whose projects are in the order of the sort and have positive costs and
  non-negative impacts, and a node within the budget: every completion of the node by
  projects from its level on that stays within the budget has a total impact of at most
  \<open>calculate_bound\<close>.
\<close>

lemma calculate_bound_sound_positive_costs:
  assumes "positive_instance (projects s)" and "total_cost nd \<le> budget s"
    and "sel \<in> set (subseqs (drop (level nd) (projects s)))"
    and "total_cost nd + selection_cost sel \<le> budget s"
  shows "\<exists>x. calculate_bound s nd = Inr x \<and> total_impact nd + selection_impact sel \<le> x"
proof -
  from assms(1) have "list_all (\<lambda>p. 0 < cost p \<and> 0 \<le> impact p) (projects s)"
    by (simp add: positive_instance_def)
  note cb = calculate_bound_positive[OF this, of nd]
  from relaxation_upper_bound[OF positive_instance_drop[OF assms(1)] _ assms(3),
      of "budget s - total_cost nd"] assms(2,4)
  have "selection_impact sel
      \<le> relaxation (drop (level nd) (projects s)) (budget s - total_cost nd)" by simp
  with cb show ?thesis by simp
qed

subsection \<open>The search finds the optimum when every cost is positive\<close>

text \<open>A value is reached from a node when a completion of the node by projects from its
  level on stays within the budget and has that total impact.\<close>

definition reaches :: "project list \<Rightarrow> real \<Rightarrow> node \<Rightarrow> real \<Rightarrow> bool" where
  "reaches ps b nd v =
     (\<exists>sel \<in> set (subseqs (drop (level nd) ps)).
        total_cost nd + selection_cost sel \<le> b \<and> v = total_impact nd + selection_impact sel)"

text \<open>The sums of a node are those of a selection among the projects decided so far.\<close>

definition exact_sums :: "project list \<Rightarrow> node \<Rightarrow> bool" where
  "exact_sums ps nd =
     (\<exists>sel \<in> set (subseqs (take (level nd) ps)).
        total_cost nd = selection_cost sel \<and> total_impact nd = selection_impact sel)"

definition node_ok :: "project list \<Rightarrow> real \<Rightarrow> node \<Rightarrow> bool" where
  "node_ok ps b nd =
     (level nd \<le> length ps \<and> exact_sums ps nd \<and> total_cost nd \<le> b \<and>
      (\<forall>v. reaches ps b nd v \<longrightarrow> v \<le> bound nd))"

definition best_ok :: "project list \<Rightarrow> real \<Rightarrow> solver \<Rightarrow> bool" where
  "best_ok ps b s =
     (case best_solution s of
        None \<Rightarrow> best_value s = 0
      | Some nd \<Rightarrow> best_value s = total_impact nd \<and> 0 < total_impact nd \<and> total_cost nd \<le> b \<and>
          (\<exists>sel \<in> set (subseqs ps).
             selection_cost sel = total_cost nd \<and> selection_impact sel = total_impact nd))"

definition covered :: "project list \<Rightarrow> real \<Rightarrow> solver \<Rightarrow> node list \<Rightarrow> real \<Rightarrow> bool" where
  "covered ps b s pq v = (v \<le> best_value s \<or> (\<exists>nd \<in> set pq. reaches ps b nd v))"

definition opt_inv :: "project list \<Rightarrow> real \<Rightarrow> solver \<Rightarrow> node list \<Rightarrow> bool" where
  "opt_inv ps b s pq =
     (projects s = ps \<and> budget s = b \<and> (\<forall>nd \<in> set pq. node_ok ps b nd) \<and> best_ok ps b s \<and>
      (\<forall>sel \<in> set (subseqs ps). selection_cost sel \<le> b
          \<longrightarrow> covered ps b s pq (selection_impact sel)))"

lemma reaches_leaf:
  "length ps \<le> level nd \<Longrightarrow> reaches ps b nd v \<longleftrightarrow> total_cost nd \<le> b \<and> v = total_impact nd"
  by (simp add: reaches_def)

lemma reaches_children:
  assumes "level nd < length ps" and "reaches ps b nd v"
    and "level l = Suc (level nd)" "total_cost l = total_cost nd + cost (ps ! level nd)"
      "total_impact l = total_impact nd + impact (ps ! level nd)"
    and "level r = Suc (level nd)" "total_cost r = total_cost nd"
      "total_impact r = total_impact nd"
  shows "reaches ps b l v \<or> reaches ps b r v"
proof -
  from assms(1) have d: "drop (level nd) ps = ps ! level nd # drop (Suc (level nd)) ps"
    by (simp add: Cons_nth_drop_Suc)
  from assms(2) obtain sel where sel: "sel \<in> set (subseqs (drop (level nd) ps))"
    and c: "total_cost nd + selection_cost sel \<le> b"
    and v: "v = total_impact nd + selection_impact sel"
    by (auto simp: reaches_def)
  from sel consider sel' where "sel = ps ! level nd # sel'"
      "sel' \<in> set (subseqs (drop (Suc (level nd)) ps))"
    | "sel \<in> set (subseqs (drop (Suc (level nd)) ps))"
    unfolding d in_subseqs_Cons by blast
  then show ?thesis
  proof cases
    case 1
    with c v assms(3-5) have "reaches ps b l v"
      unfolding reaches_def by (intro bexI[of _ sel']) auto
    then show ?thesis ..
  next
    case 2
    with c v assms(6-8) have "reaches ps b r v"
      unfolding reaches_def by (intro bexI[of _ sel]) auto
    then show ?thesis ..
  qed
qed

lemma reaches_infeasible:
  assumes "\<forall>p \<in> set ps. 0 \<le> cost p" and "b < total_cost nd"
  shows "\<not> reaches ps b nd v"
proof
  assume "reaches ps b nd v"
  then obtain sel where sel: "sel \<in> set (subseqs (drop (level nd) ps))"
    and c: "total_cost nd + selection_cost sel \<le> b"
    by (auto simp: reaches_def)
  from subseqs_set[OF sel] assms(1) have "\<forall>p \<in> set sel. 0 \<le> cost p"
    by (meson in_set_dropD subsetD)
  from selection_cost_nonneg[OF this] c assms(2) show False by simp
qed

lemma reaches_bound_update [simp]: "reaches ps b (nd\<lparr>bound := x\<rparr>) v = reaches ps b nd v"
  by (simp add: reaches_def)

lemma exact_sums_bound_update [simp]: "exact_sums ps (nd\<lparr>bound := x\<rparr>) = exact_sums ps nd"
  by (simp add: exact_sums_def)

lemma subseqs_snoc:
  "sel \<in> set (subseqs xs) \<Longrightarrow>
     sel @ [x] \<in> set (subseqs (xs @ [x])) \<and> sel \<in> set (subseqs (xs @ [x]))"
  by (induction xs arbitrary: sel) (auto simp: Let_def)

lemma exact_sums_children:
  assumes "level nd < length ps" and "exact_sums ps nd"
    and "level l = Suc (level nd)" "total_cost l = total_cost nd + cost (ps ! level nd)"
      "total_impact l = total_impact nd + impact (ps ! level nd)"
    and "level r = Suc (level nd)" "total_cost r = total_cost nd"
      "total_impact r = total_impact nd"
  shows "exact_sums ps l" and "exact_sums ps r"
proof -
  from assms(1) have t: "take (Suc (level nd)) ps = take (level nd) ps @ [ps ! level nd]"
    by (simp add: take_Suc_conv_app_nth)
  from assms(2) obtain sel where sel: "sel \<in> set (subseqs (take (level nd) ps))"
    and c: "total_cost nd = selection_cost sel" and v: "total_impact nd = selection_impact sel"
    by (auto simp: exact_sums_def)
  note sn = subseqs_snoc[OF sel, of "ps ! level nd"]
  show "exact_sums ps l" unfolding exact_sums_def assms(3) t
    using sn c v assms(4,5) by (intro bexI[of _ "sel @ [ps ! level nd]"]) auto
  show "exact_sums ps r" unfolding exact_sums_def assms(6) t
    using sn c v assms(7,8) by (intro bexI[of _ sel]) auto
qed


lemma positive_instance_costs:
  "positive_instance ps \<Longrightarrow> list_all (\<lambda>p. 0 < cost p \<and> 0 \<le> impact p) ps"
  by (simp add: positive_instance_def)

lemma node_ok_fresh:
  assumes pos: "positive_instance (projects s)"
    and c: "level child \<le> length (projects s)" "exact_sums (projects s) child"
      "total_cost child \<le> budget s"
    and bd: "calculate_bound s child = Inr bd"
  shows "node_ok (projects s) (budget s) (child\<lparr>bound := bd\<rparr>)"
proof -
  have "v \<le> bd" if "reaches (projects s) (budget s) child v" for v
  proof -
    from that obtain sel where "sel \<in> set (subseqs (drop (level child) (projects s)))"
      "total_cost child + selection_cost sel \<le> budget s"
      "v = total_impact child + selection_impact sel"
      by (auto simp: reaches_def)
    with calculate_bound_sound_positive_costs[OF pos c(3), of sel] bd show ?thesis by auto
  qed
  with c show ?thesis by (simp add: node_ok_def)
qed

lemma add_child_opt:
  assumes pos: "positive_instance (projects s)"
    and ok: "\<forall>nd \<in> set pq. node_ok (projects s) (budget s) nd"
    and c: "level child \<le> length (projects s)" "exact_sums (projects s) child"
    and ac: "add_child s pq child = Inr (s', pq')"
  shows "projects s' = projects s" and "budget s' = budget s"
    and "best_solution s' = best_solution s" and "best_value s' = best_value s"
    and "\<forall>nd \<in> set pq'. node_ok (projects s) (budget s) nd"
    and "set pq \<subseteq> set pq'"
    and "\<forall>v. reaches (projects s) (budget s) child v
           \<longrightarrow> covered (projects s) (budget s) s' pq' v"
proof -
  from ac obtain bd pr rs where bd: "calculate_bound s child = Inr bd"
    and sp: "should_prune s (child\<lparr>bound := bd\<rparr>) = (s', pr, rs)"
    and ms: "mset pq' = (if pr then mset pq else add_mset (child\<lparr>bound := bd\<rparr>) (mset pq))"
    by (rule add_child_cases)
  note props = should_prune_props[OF sp]
  from props show "projects s' = projects s" "budget s' = budget s"
    "best_solution s' = best_solution s" "best_value s' = best_value s" by simp_all
  from ms have st: "set pq' = (if pr then set pq else insert (child\<lparr>bound := bd\<rparr>) (set pq))"
    by (metis set_mset_mset set_mset_add_mset_insert)
  then show "set pq \<subseteq> set pq'" by auto
  from positive_instance_costs[OF pos] have nn: "\<forall>p \<in> set (projects s). 0 \<le> cost p"
    by (auto simp: list_all_iff intro: less_imp_le)
  show "\<forall>nd \<in> set pq'. node_ok (projects s) (budget s) nd"
  proof (cases pr)
    case True
    with st ok show ?thesis by simp
  next
    case False
    with props(1) have "total_cost child \<le> budget s" by (simp add: is_feasible_def)
    from node_ok_fresh[OF pos c this bd] st ok False show ?thesis by simp
  qed
  show "\<forall>v. reaches (projects s) (budget s) child v
           \<longrightarrow> covered (projects s) (budget s) s' pq' v"
  proof (intro allI impI)
    fix v assume r: "reaches (projects s) (budget s) child v"
    with reaches_infeasible[OF nn, of "budget s" child v]
    have feas: "total_cost child \<le> budget s" by (cases "total_cost child \<le> budget s") auto
    from node_ok_fresh[OF pos c this bd] r have vb: "v \<le> bd" by (simp add: node_ok_def)
    show "covered (projects s) (budget s) s' pq' v"
    proof (cases pr)
      case True
      with props(1) feas have "bd \<le> best_value s" by (simp add: is_feasible_def)
      with vb props(5) show ?thesis by (simp add: covered_def)
    next
      case False
      with st r show ?thesis unfolding covered_def
        by (intro disjI2 bexI[of _ "child\<lparr>bound := bd\<rparr>"]) auto
    qed
  qed
qed

lemma best_ok_cong:
  "best_solution s' = best_solution s \<Longrightarrow> best_value s' = best_value s
   \<Longrightarrow> best_ok ps b s' = best_ok ps b s"
  by (cases "best_solution s") (simp_all add: best_ok_def)

lemma covered_mono:
  assumes "covered ps b s pq v" and "best_value s \<le> best_value s'"
    and "\<forall>nd \<in> set pq. reaches ps b nd v \<longrightarrow> nd \<in> set pq' \<or> covered ps b s' pq' v"
  shows "covered ps b s' pq' v"
  using assms unfolding covered_def by force

lemma opt_inv_step:
  assumes pos: "positive_instance ps"
    and inv: "opt_inv ps b s pq" and ne: "pq \<noteq> []"
    and st: "solve_step s pq = Inr (s', pq')"
  shows "opt_inv ps b s' pq'"
proof -
  from inv have ps: "projects s = ps" and b: "budget s = b"
    and ok: "\<forall>nd \<in> set pq. node_ok ps b nd" and best: "best_ok ps b s"
    and cov: "\<forall>sel \<in> set (subseqs ps). selection_cost sel \<le> b
          \<longrightarrow> covered ps b s pq (selection_impact sel)"
    by (simp_all add: opt_inv_def)
  from ne st show ?thesis
  proof (cases rule: solve_step_cases)
    case (pruned cur pq1 rs)
    note p = should_prune_props[OF pruned(2)]
    from pruned(1) have set: "set pq = insert cur (set pq1)"
      by (metis set_mset_mset set_mset_add_mset_insert)
    with ok have cur: "node_ok ps b cur" by simp
    with p(1) b have le: "bound cur \<le> best_value s" by (simp add: node_ok_def is_feasible_def)
    have "covered ps b s' pq' v" if "covered ps b s pq v" for v
      using that
    proof (rule covered_mono)
      show "best_value s \<le> best_value s'" using p(5) by simp
      show "\<forall>nd \<in> set pq. reaches ps b nd v \<longrightarrow> nd \<in> set pq' \<or> covered ps b s' pq' v"
        using set pruned(3) cur le p(5) by (auto simp: node_ok_def covered_def)
    qed
    with cov have "\<forall>sel \<in> set (subseqs ps). selection_cost sel \<le> b
          \<longrightarrow> covered ps b s' pq' (selection_impact sel)" by blast
    moreover from best p(4,5) have "best_ok ps b s'" using best_ok_cong[of s' s ps b] by simp
    ultimately show ?thesis using p(2,3) ps b ok set pruned(3) by (simp add: opt_inv_def)
  next
    case (leaf cur pq1 s3 rs)
    note p = should_prune_props[OF leaf(2)]
    from leaf(1) have set: "set pq = insert cur (set pq1)"
      by (metis set_mset_mset set_mset_add_mset_insert)
    with ok have cur: "node_ok ps b cur" by simp
    from leaf(3) ps have lv: "level cur = length ps" by (simp add: n_projects_def)
    from cur have feas: "is_feasible s3 cur" using p(3) b by (simp add: node_ok_def is_feasible_def)
    have bv: "best_value s' = max (best_value s) (total_impact cur)"
      using leaf(4) feas p(5) by (simp add: update_best_solution_def)
    have "covered ps b s' pq' v" if "covered ps b s pq v" for v
      using that
    proof (rule covered_mono)
      show "best_value s \<le> best_value s'" using bv by simp
      show "\<forall>nd \<in> set pq. reaches ps b nd v \<longrightarrow> nd \<in> set pq' \<or> covered ps b s' pq' v"
        using set leaf(5) lv bv by (auto simp: reaches_leaf covered_def)
    qed
    with cov have "\<forall>sel \<in> set (subseqs ps). selection_cost sel \<le> b
          \<longrightarrow> covered ps b s' pq' (selection_impact sel)" by blast
    moreover have "best_ok ps b s'"
    proof (cases "total_impact cur > best_value s")
      case True
      from best have "0 \<le> best_value s" by (auto simp: best_ok_def split: option.splits)
      with True have "0 < total_impact cur" by simp
      moreover from cur lv have "\<exists>sel \<in> set (subseqs ps).
          selection_cost sel = total_cost cur \<and> selection_impact sel = total_impact cur"
        by (auto simp: node_ok_def exact_sums_def)
      ultimately show ?thesis using True leaf(4) feas p(5) cur
        by (simp add: update_best_solution_def best_ok_def node_ok_def)
    next
      case False
      with leaf(4) have "s' = s3" by (simp add: update_best_solution_def p(5))
      with best p(4,5) show ?thesis using best_ok_cong[of s3 s ps b] by simp
    qed
    ultimately show ?thesis using p(2,3) ps b ok set leaf(4,5) by (simp add: opt_inv_def)
  next
    case (expand cur pq1 s3 rs s4 pq2)
    note p = should_prune_props[OF expand(2)]
    from expand(1) have set: "set pq = insert cur (set pq1)"
      by (metis set_mset_mset set_mset_add_mset_insert)
    with ok have cur: "node_ok ps b cur" by simp
    from expand(3) ps have lt: "level cur < length ps" by (simp add: n_projects_def)
    have p3: "projects s3 = ps" "budget s3 = b" using p ps b by simp_all
    from cur have es: "exact_sums ps cur" by (simp add: node_ok_def)
    have ex: "exact_sums ps (left_child s3 cur)" "exact_sums ps (right_child cur)"
      using exact_sums_children[OF lt es, of "left_child s3 cur" "right_child cur"]
      by (simp_all add: left_child_def right_child_def p3)
    from lt have lv: "level (left_child s3 cur) \<le> length ps" "level (right_child cur) \<le> length ps"
      by (simp_all add: left_child_def right_child_def)
    from ok set have ok1: "\<forall>nd \<in> set pq1. node_ok (projects s3) (budget s3) nd"
      by (simp add: p3)
    note l = add_child_opt[OF _ ok1 _ _ expand(4), unfolded p3, OF pos lv(1) ex(1)]
    have p4: "projects s4 = ps" "budget s4 = b" using l(1,2) by simp_all
    from l(5) have ok2: "\<forall>nd \<in> set pq2. node_ok (projects s4) (budget s4) nd"
      by (simp add: p4)
    note r = add_child_opt[OF _ ok2 _ _ expand(5), unfolded p4, OF pos lv(2) ex(2)]
    have bv: "best_value s' = best_value s" "best_solution s' = best_solution s"
      using l(3,4) r(3,4) p(4,5) by simp_all
    have "covered ps b s' pq' v" if "covered ps b s pq v" for v
      using that
    proof (rule covered_mono)
      show "best_value s \<le> best_value s'" using bv by simp
      show "\<forall>nd \<in> set pq. reaches ps b nd v \<longrightarrow> nd \<in> set pq' \<or> covered ps b s' pq' v"
      proof (intro ballI impI)
        fix nd assume nd: "nd \<in> set pq" "reaches ps b nd v"
        show "nd \<in> set pq' \<or> covered ps b s' pq' v"
        proof (cases "nd = cur")
          case True
          with nd have "reaches ps b (left_child s3 cur) v \<or> reaches ps b (right_child cur) v"
            by (intro reaches_children[OF lt]) (simp_all add: left_child_def right_child_def p3)
          then show ?thesis
          proof
            assume "reaches ps b (left_child s3 cur) v"
            with l(7) have "covered ps b s4 pq2 v" by simp
            then have "covered ps b s' pq' v"
              using r(4,6) by (auto simp: covered_def)
            then show ?thesis ..
          next
            assume "reaches ps b (right_child cur) v"
            with r(7) show ?thesis by simp
          qed
        next
          case False
          with nd set l(6) r(6) show ?thesis by auto
        qed
      qed
    qed
    with cov have "\<forall>sel \<in> set (subseqs ps). selection_cost sel \<le> b
          \<longrightarrow> covered ps b s' pq' (selection_impact sel)" by blast
    moreover from best bv have "best_ok ps b s'" using best_ok_cong[of s' s ps b] by simp
    ultimately show ?thesis using r(1,2,5) p4 by (simp add: opt_inv_def)
  qed
qed

lemma opt_inv_step_total:
  assumes pos: "positive_instance ps" and inv: "opt_inv ps b s pq" and ne: "pq \<noteq> []"
  shows "\<exists>x. solve_step s pq = Inr x"
proof -
  obtain cur pq1 where pop: "heappop pq = (cur, pq1)" by (cases "heappop pq") auto
  from mset_heappop[OF ne pop] have "cur \<in> set pq"
    by (metis set_mset_mset union_single_eq_member)
  with inv have lv: "level cur \<le> length ps" and ps: "projects s = ps"
    by (simp_all add: opt_inv_def node_ok_def)
  obtain s3 pr rs where sp: "should_prune (popped s cur) cur = (s3, pr, rs)"
    using prod_cases3 by blast
  note p3 = should_prune_props(2)[OF sp]
  note unf = solve_step_unfold[OF pop sp[unfolded popped_def], folded left_child_def right_child_def]
  have cb: "\<exists>x. calculate_bound t nd = Inr x" if "projects t = ps" for t nd
    using calculate_bound_positive[of t nd] positive_instance_costs[OF pos] that by simp
  show ?thesis
  proof (cases "pr \<or> level cur = n_projects s3")
    case True
    then show ?thesis by (auto simp: unf)
  next
    case False
    with lv ps p3 have lt: "level cur < length ps" by (simp add: n_projects_def)
    from cb[of s3] p3 ps obtain s4 pq2 where
      l: "add_child s3 pq1 (left_child s3 cur) = Inr (s4, pq2)"
      using add_child_total[of s3 "left_child s3 cur" pq1] by auto
    from l obtain bd pr' rs' where
      "should_prune s3 ((left_child s3 cur)\<lparr>bound := bd\<rparr>) = (s4, pr', rs')"
      by (rule add_child_cases)
    from should_prune_props(2)[OF this] p3 ps have "projects s4 = ps" by simp
    from cb[OF this] have "\<exists>x. add_child s4 pq2 (right_child cur) = Inr x"
      by (rule add_child_total)
    with False lt p3 ps l show ?thesis by (auto simp: unf n_projects_def)
  qed
qed

lemma feasible_impacts:
  "set (map selection_impact (feasible_selections ps b))
     = selection_impact ` {sel \<in> set (subseqs ps). selection_cost sel \<le> b}"
  by (auto simp: feasible_selections_def)

lemma optimal_impact_eqI:
  assumes "sel \<in> set (subseqs ps)" "selection_cost sel \<le> b" "selection_impact sel = v"
    and "\<And>sel'. sel' \<in> set (subseqs ps) \<Longrightarrow> selection_cost sel' \<le> b
           \<Longrightarrow> selection_impact sel' \<le> v"
  shows "optimal_impact ps b = v"
  unfolding optimal_impact_def feasible_impacts
proof (rule Max_eqI)
  show "finite (selection_impact ` {sel \<in> set (subseqs ps). selection_cost sel \<le> b})" by simp
  show "v \<in> selection_impact ` {sel \<in> set (subseqs ps). selection_cost sel \<le> b}"
    using assms(1-3) by blast
  fix y assume "y \<in> selection_impact ` {sel \<in> set (subseqs ps). selection_cost sel \<le> b}"
  with assms(4) show "y \<le> v" by blast
qed

lemma optimal_impact_ge:
  assumes "sel \<in> set (subseqs ps)" "selection_cost sel \<le> b"
  shows "selection_impact sel \<le> optimal_impact ps b"
  unfolding optimal_impact_def feasible_impacts
  using assms by (intro Max_ge) auto

lemma optimal_impact_attained:
  assumes "0 \<le> b"
  shows "\<exists>sel \<in> set (subseqs ps). selection_cost sel \<le> b
           \<and> selection_impact sel = optimal_impact ps b"
proof -
  let ?A = "selection_impact ` {sel \<in> set (subseqs ps). selection_cost sel \<le> b}"
  have "[] \<in> {sel \<in> set (subseqs ps). selection_cost sel \<le> b}"
    using assms by (induction ps) (auto simp: Let_def)
  then have "?A \<noteq> {}" by blast
  moreover have "finite ?A" by simp
  ultimately have "Max ?A \<in> ?A" by (rule Max_in[rotated])
  then show ?thesis unfolding optimal_impact_def feasible_impacts by auto
qed

text \<open>The optimum does not depend on the order of the projects.\<close>

lemma subseqs_mset_le: "sel \<in> set (subseqs xs) \<Longrightarrow> mset sel \<subseteq># mset xs"
proof (induction xs arbitrary: sel)
  case Nil
  then show ?case by simp
next
  case (Cons x xs)
  from Cons.prems consider sel' where "sel = x # sel'" "sel' \<in> set (subseqs xs)"
    | "sel \<in> set (subseqs xs)"
    unfolding in_subseqs_Cons by blast
  then show ?case
  proof cases
    case 1
    with Cons.IH[of sel'] show ?thesis by simp
  next
    case 2
    with Cons.IH[of sel] have "mset sel \<subseteq># mset xs" by simp
    then have "mset sel \<subseteq># add_mset x (mset xs)"
      by (metis multi_psub_of_add_self subset_mset.le_less_trans subset_mset.less_le)
    then show ?thesis by simp
  qed
qed

lemma ex_subseqs_mset: "M \<subseteq># mset ys \<Longrightarrow> \<exists>sel \<in> set (subseqs ys). mset sel = M"
proof (induction ys arbitrary: M)
  case Nil
  then show ?case by simp
next
  case (Cons y ys)
  show ?case
  proof (cases "y \<in># M")
    case True
    from Cons.prems have "M \<subseteq># add_mset y (mset ys)" by simp
    with True have "M - {#y#} \<subseteq># mset ys"
      by (metis insert_DiffM mset_subset_eq_add_mset_cancel)
    from Cons.IH[OF this] obtain sel where "sel \<in> set (subseqs ys)" "mset sel = M - {#y#}"
      by blast
    with True have "y # sel \<in> set (subseqs (y # ys))" "mset (y # sel) = M"
      by (auto simp: Let_def)
    then show ?thesis by blast
  next
    case False
    from Cons.prems have "M \<subseteq># add_mset y (mset ys)" by simp
    with False have "M \<subseteq># mset ys"
      by (metis Diff_eq_empty_iff_mset minus_add_mset_if_not_in_lhs)
    from Cons.IH[OF this] obtain sel where "sel \<in> set (subseqs ys)" "mset sel = M" by blast
    then show ?thesis by (auto simp: Let_def)
  qed
qed

lemma selection_sums_mset:
  "selection_cost sel = sum_mset (image_mset cost (mset sel))"
  "selection_impact sel = sum_mset (image_mset impact (mset sel))"
  by (simp_all add: selection_cost_def selection_impact_def sum_mset_sum_list[symmetric])

lemma subseqs_permuted:
  assumes "mset xs = mset ys" and "sel \<in> set (subseqs xs)"
  shows "\<exists>sel' \<in> set (subseqs ys). selection_cost sel' = selection_cost sel
           \<and> selection_impact sel' = selection_impact sel"
proof -
  from subseqs_mset_le[OF assms(2)] assms(1) have "mset sel \<subseteq># mset ys" by simp
  from ex_subseqs_mset[OF this] obtain sel' where "sel' \<in> set (subseqs ys)" "mset sel' = mset sel"
    by blast
  then show ?thesis by (intro bexI[of _ sel']) (simp_all add: selection_sums_mset)
qed

lemma optimal_impact_permuted:
  assumes "mset xs = mset ys" and "0 \<le> b"
  shows "optimal_impact xs b = optimal_impact ys b"
proof -
  from optimal_impact_attained[OF assms(2), of ys] obtain sel where
    sel: "sel \<in> set (subseqs ys)" "selection_cost sel \<le> b"
      "selection_impact sel = optimal_impact ys b" by blast
  from subseqs_permuted[OF assms(1)[symmetric] sel(1)] obtain sel' where
    sel': "sel' \<in> set (subseqs xs)" "selection_cost sel' = selection_cost sel"
      "selection_impact sel' = selection_impact sel" by blast
  show ?thesis
  proof (rule optimal_impact_eqI)
    show "sel' \<in> set (subseqs xs)" by (rule sel'(1))
    show "selection_cost sel' \<le> b" using sel' sel by simp
    show "selection_impact sel' = optimal_impact ys b" using sel' sel by simp
    fix t assume t: "t \<in> set (subseqs xs)" "selection_cost t \<le> b"
    from subseqs_permuted[OF assms(1) t(1)] obtain t' where
      "t' \<in> set (subseqs ys)" "selection_cost t' = selection_cost t"
      "selection_impact t' = selection_impact t" by blast
    with optimal_impact_ge[of t' ys b] t(2) show "selection_impact t \<le> optimal_impact ys b"
      by simp
  qed
qed

lemma optimal_impact_sorted:
  "0 \<le> b \<Longrightarrow> optimal_impact (sort_by_efficiency ps) b = optimal_impact ps b"
  by (rule optimal_impact_permuted) (simp_all add: sort_by_efficiency_def)

lemma optimal_impact_mono:
  assumes "0 \<le> b1" and "b1 \<le> b2"
  shows "optimal_impact ps b1 \<le> optimal_impact ps b2"
proof -
  from optimal_impact_attained[OF assms(1), of ps] obtain sel where
    "sel \<in> set (subseqs ps)" "selection_cost sel \<le> b1"
    "selection_impact sel = optimal_impact ps b1" by blast
  with optimal_impact_ge[of sel ps b2] assms(2) show ?thesis by simp
qed

lemma positive_instance_sorted:
  "list_all (\<lambda>p. 0 < cost p \<and> 0 \<le> impact p) ps \<Longrightarrow> positive_instance (sort_by_efficiency ps)"
  by (simp add: positive_instance_def sort_by_efficiency_def list_all_iff)

text \<open>From the root on, the loop keeps the invariant and ends without an error.\<close>

lemma solve_loop_opt:
  assumes pos: "positive_instance (projects s)" and b: "0 \<le> budget s"
    and fresh: "best_solution s = None" "best_value s = 0"
    and bd: "calculate_bound s
        \<lparr>level = 0, selected = [], total_cost = 0, total_impact = 0, bound = 0\<rparr> = Inr bd"
  shows "\<exists>s'. solve_loop (s, heappush []
        \<lparr>level = 0, selected = [], total_cost = 0, total_impact = 0, bound = bd\<rparr>) = Inr s'
      \<and> opt_inv (projects s) (budget s) s' []"
proof -
  let ?zero = "\<lparr>level = 0, selected = [], total_cost = 0, total_impact = 0, bound = 0\<rparr>"
  let ?root = "\<lparr>level = 0, selected = [], total_cost = 0, total_impact = 0, bound = bd\<rparr>"
  have es: "exact_sums (projects s) ?zero" by (simp add: exact_sums_def)
  have "node_ok (projects s) (budget s) (?zero\<lparr>bound := bd\<rparr>)"
    by (rule node_ok_fresh[OF pos _ es _ bd]) (use b in simp_all)
  then have ok: "node_ok (projects s) (budget s) ?root" by simp
  have set: "set (heappush [] ?root) = {?root}"
    by (metis mset_heappush mset.simps(1) set_mset_mset set_mset_single)
  have "reaches (projects s) (budget s) ?root (selection_impact sel)"
    if "sel \<in> set (subseqs (projects s))" "selection_cost sel \<le> budget s" for sel
    using that unfolding reaches_def by (intro bexI[of _ sel]) simp_all
  with ok set fresh have inv: "opt_inv (projects s) (budget s) s (heappush [] ?root)"
    by (simp add: opt_inv_def covered_def best_ok_def)
  show ?thesis
  proof (rule solve_loop_total_rule[where I = "opt_inv (projects s) (budget s)"])
    show "opt_inv (projects s) (budget s) s (heappush [] ?root)" by (rule inv)
  next
    fix s1 pq1 s2 pq2
    assume "opt_inv (projects s) (budget s) s1 pq1" "pq1 \<noteq> []"
      "solve_step s1 pq1 = Inr (s2, pq2)"
    then show "opt_inv (projects s) (budget s) s2 pq2" by (rule opt_inv_step[OF pos])
  next
    fix s1 pq1
    assume "opt_inv (projects s) (budget s) s1 pq1" "pq1 \<noteq> []"
    then show "\<exists>x. solve_step s1 pq1 = Inr x" by (rule opt_inv_step_total[OF pos])
  qed
qed

lemma opt_inv_final:
  assumes "opt_inv ps b s []" and "0 \<le> b"
  shows "best_value s = optimal_impact ps b"
    and "case best_solution s of None \<Rightarrow> optimal_impact ps b = 0
         | Some nd \<Rightarrow> total_impact nd = optimal_impact ps b \<and> total_cost nd \<le> b
             \<and> 0 < total_impact nd"
proof -
  from assms(1) have best: "best_ok ps b s"
    and cov: "\<And>sel. sel \<in> set (subseqs ps) \<Longrightarrow> selection_cost sel \<le> b
        \<Longrightarrow> selection_impact sel \<le> best_value s"
    by (simp_all add: opt_inv_def covered_def)
  have "\<exists>sel \<in> set (subseqs ps). selection_cost sel \<le> b \<and> selection_impact sel = best_value s"
  proof (cases "best_solution s")
    case None
    with best have "best_value s = 0" by (simp add: best_ok_def)
    moreover have "[] \<in> set (subseqs ps)" by (induction ps) (auto simp: Let_def)
    ultimately show ?thesis using assms(2) by (intro bexI[of _ "[]"]) simp_all
  next
    case (Some nd)
    with best obtain sel where "sel \<in> set (subseqs ps)" "selection_cost sel = total_cost nd"
      "selection_impact sel = total_impact nd" "total_cost nd \<le> b"
      "best_value s = total_impact nd"
      by (auto simp: best_ok_def)
    then show ?thesis by (intro bexI[of _ sel]) simp_all
  qed
  then obtain sel where "sel \<in> set (subseqs ps)" "selection_cost sel \<le> b"
    "selection_impact sel = best_value s" by blast
  then have "optimal_impact ps b = best_value s" using cov by (rule optimal_impact_eqI)
  then show bv: "best_value s = optimal_impact ps b" by simp
  from best bv show "case best_solution s of None \<Rightarrow> optimal_impact ps b = 0
         | Some nd \<Rightarrow> total_impact nd = optimal_impact ps b \<and> total_cost nd \<le> b
             \<and> 0 < total_impact nd"
    by (auto simp: best_ok_def split: option.splits)
qed

text \<open>The total value of a result, a result without a solution counting as 0.\<close>

definition result_value :: "result \<Rightarrow> real" where
  "result_value r = (case result_total_impact r of None \<Rightarrow> 0 | Some v \<Rightarrow> v)"

text \<open>
  With strictly positive costs and non-negative impacts, \<^verbatim>\<open>solve\<close> on a fresh solver returns
  a result, and the result is the optimum: the status is \<^verbatim>\<open>optimal\<close> with the optimal total
  impact and a total cost within the budget when the optimum is positive, and
  \<^verbatim>\<open>no_solution\<close> when the optimum is 0.
\<close>

lemma solve_optimal_positive_costs:
  assumes "ps \<noteq> []" and "0 < b" and "list_all (\<lambda>p. 0 < cost p \<and> 0 \<le> impact p) ps"
  shows "\<exists>r. construct_and_solve t0 t1 ps b = Inr r \<and> result_value r = optimal_impact ps b \<and>
     (case r of
        No_solution m \<Rightarrow> optimal_impact ps b = 0
      | Optimal sol m d \<Rightarrow> sol_total_impact sol = optimal_impact ps b \<and> sol_total_cost sol \<le> b
          \<and> 0 < optimal_impact ps b
      | Heuristic sol t \<Rightarrow> False)"
proof -
  from assms(1,2) obtain s where s: "BranchAndBound_init ps b = Inr s"
    and f: "projects s = sort_by_efficiency ps" "budget s = b" "best_solution s = None"
      "best_value s = 0"
    by (simp add: BranchAndBound_init_def)
  from positive_instance_sorted[OF assms(3)] f have pos: "positive_instance (projects s)" by simp
  let ?zero = "\<lparr>level = 0, selected = [], total_cost = 0, total_impact = 0, bound = 0\<rparr>"
  from calculate_bound_positive[OF positive_instance_costs[OF pos], of ?zero]
  obtain bd where bd: "calculate_bound s ?zero = Inr bd" by blast
  from solve_loop_opt[OF pos _ f(3,4) bd] assms(2) f(2)
  obtain s' where l: "solve_loop (s, heappush []
        \<lparr>level = 0, selected = [], total_cost = 0, total_impact = 0, bound = bd\<rparr>) = Inr s'"
    and inv: "opt_inv (sort_by_efficiency ps) b s' []"
    by (auto simp: f)
  from inv have b': "budget s' = b" by (simp add: opt_inv_def)
  from assms(2) have b0: "0 \<le> b" by simp
  note fin = opt_inv_final[OF inv b0, unfolded optimal_impact_sorted[OF b0]]
  let ?s'' = "s'\<lparr>execution_time := t1 - t0\<rparr>"
  have sv: "solve t0 t1 s = (case prepare_result ?s'' of Inl e \<Rightarrow> Inl e | Inr r \<Rightarrow> Inr (r, ?s''))"
    by (simp add: solve_def bd l Let_def)
  show ?thesis
  proof (cases "best_solution s'")
    case None
    with fin(2) have "optimal_impact ps b = 0" by simp
    with None s sv show ?thesis
      by (simp add: construct_and_solve_def prepare_result_def result_value_def)
  next
    case (Some nd)
    with fin(2) have "total_impact nd = optimal_impact ps b" "total_cost nd \<le> b"
      "0 < total_impact nd" by simp_all
    with Some s sv b' assms(2) show ?thesis
      by (simp add: construct_and_solve_def prepare_result_def result_value_def Let_def)
  qed
qed

text \<open>The greedy heuristic returns the sums of a feasible selection.\<close>

lemma greedy_loop_feasible:
  assumes "greedy_loop ps b sel tc ti = (sel', tc', ti')" and "tc \<le> b"
  shows "\<exists>ext \<in> set (subseqs ps). tc' = tc + selection_cost ext
           \<and> ti' = ti + selection_impact ext \<and> tc' \<le> b"
  using assms
proof (induction ps arbitrary: sel tc ti)
  case Nil
  then show ?case by simp
next
  case (Cons p ps)
  show ?case
  proof (cases "tc + cost p \<le> b")
    case True
    with Cons.prems have "greedy_loop ps b (sel @ [p]) (tc + cost p) (ti + impact p)
        = (sel', tc', ti')" by simp
    from Cons.IH[OF this True] obtain ext where "ext \<in> set (subseqs ps)"
      "tc' = tc + cost p + selection_cost ext" "ti' = ti + impact p + selection_impact ext"
      "tc' \<le> b" by blast
    then show ?thesis by (intro bexI[of _ "p # ext"]) (auto simp: Let_def)
  next
    case False
    with Cons.prems have "greedy_loop ps b sel tc ti = (sel', tc', ti')" by simp
    from Cons.IH[OF this Cons.prems(2)] obtain ext where "ext \<in> set (subseqs ps)"
      "tc' = tc + selection_cost ext" "ti' = ti + selection_impact ext" "tc' \<le> b" by blast
    then show ?thesis by (intro bexI[of _ ext]) (auto simp: Let_def)
  qed
qed

lemma greedy_heuristic_le_optimum:
  assumes "0 < b"
  shows "\<exists>g. greedy_heuristic t0 t1 ps b = Inr g \<and> result_value g \<le> optimal_impact ps b"
proof -
  obtain sel tc ti where gl: "greedy_loop (sort_by_efficiency ps) b [] 0 0 = (sel, tc, ti)"
    using prod_cases3 by blast
  from greedy_loop_feasible[OF gl] assms obtain ext where
    "ext \<in> set (subseqs (sort_by_efficiency ps))" "selection_cost ext \<le> b"
    "ti = selection_impact ext" by auto
  with optimal_impact_ge[of ext "sort_by_efficiency ps" b] optimal_impact_sorted[of b ps] assms
  have "ti \<le> optimal_impact ps b" by simp
  with gl assms show ?thesis
    by (simp add: greedy_heuristic_def Let_def result_value_def)
qed

text \<open>With strictly positive costs \<^verbatim>\<open>solve\<close> is at least as good as the greedy heuristic.\<close>

lemma solve_ge_greedy_positive_costs:
  assumes "ps \<noteq> []" and "0 < b" and "list_all (\<lambda>p. 0 < cost p \<and> 0 \<le> impact p) ps"
  shows "\<exists>r g. construct_and_solve t0 t1 ps b = Inr r \<and> greedy_heuristic t2 t3 ps b = Inr g
           \<and> result_value g \<le> result_value r"
  using solve_optimal_positive_costs[OF assms, of t0 t1]
    greedy_heuristic_le_optimum[OF assms(2), of t2 t3 ps] by auto

text \<open>With strictly positive costs \<^verbatim>\<open>solve\<close> is monotone in the budget.\<close>

lemma solve_monotone_positive_costs:
  assumes "ps \<noteq> []" and "0 < b1" and "b1 \<le> b2"
    and "list_all (\<lambda>p. 0 < cost p \<and> 0 \<le> impact p) ps"
  shows "\<exists>r1 r2. construct_and_solve t0 t1 ps b1 = Inr r1 \<and> construct_and_solve t2 t3 ps b2 = Inr r2
           \<and> result_value r1 \<le> result_value r2"
proof -
  from assms(2,3) have b2: "0 < b2" by simp
  from solve_optimal_positive_costs[OF assms(1,2,4), of t0 t1]
    solve_optimal_positive_costs[OF assms(1) b2 assms(4), of t2 t3]
    optimal_impact_mono[of b1 b2 ps] assms(2,3)
  show ?thesis by auto
qed

subsection \<open>No solution and the optimum of value zero\<close>

lemma cost_le_selection_cost:
  "p \<in> set sel \<Longrightarrow> \<forall>q \<in> set sel. 0 \<le> cost q \<Longrightarrow> cost p \<le> selection_cost sel"
proof (induction sel)
  case Nil
  then show ?case by simp
next
  case (Cons x sel)
  from Cons.prems(2) have nn: "0 \<le> cost x" "0 \<le> selection_cost sel"
    by (simp_all add: selection_cost_nonneg)
  show ?case
  proof (cases "p = x")
    case True
    with nn show ?thesis by simp
  next
    case False
    with Cons have "cost p \<le> selection_cost sel" by simp
    with nn show ?thesis by simp
  qed
qed

lemma selection_impact_zero:
  "\<forall>p \<in> set sel. impact p = 0 \<Longrightarrow> selection_impact sel = 0"
  by (induction sel) auto

text \<open>When every project that fits the budget has impact zero, the optimum is zero.\<close>

lemma optimal_impact_zero:
  assumes "0 \<le> b" and "\<forall>p \<in> set ps. 0 \<le> cost p"
    and "\<forall>p \<in> set ps. cost p \<le> b \<longrightarrow> impact p = 0"
  shows "optimal_impact ps b = 0"
proof (rule optimal_impact_eqI)
  show "[] \<in> set (subseqs ps)" by (induction ps) (auto simp: Let_def)
  show "selection_cost [] \<le> b" using assms(1) by simp
  show "selection_impact [] = 0" by simp
  fix sel assume sel: "sel \<in> set (subseqs ps)" "selection_cost sel \<le> b"
  from subseqs_set[OF sel(1)] assms(2) have nn: "\<forall>q \<in> set sel. 0 \<le> cost q" by blast
  have "\<forall>p \<in> set sel. impact p = 0"
  proof
    fix p assume p: "p \<in> set sel"
    from cost_le_selection_cost[OF p nn] sel(2) have "cost p \<le> b" by simp
    moreover from p subseqs_set[OF sel(1)] have "p \<in> set ps" by blast
    ultimately show "impact p = 0" using assms(3) by simp
  qed
  then show "selection_impact sel \<le> 0" by (simp add: selection_impact_zero)
qed

text \<open>
  Claim C3 as stated fails in its second half: the zero-value project
  \<open>P1(cost 10, impact 0)\<close> fits the budget 100, and the instance is reported as
  \<^verbatim>\<open>no_solution\<close>, not as optimal with value 0.
\<close>

theorem no_solution_counterexample:
  "cost (Project 1 ''P1'' 10 0 ''Test'') \<le> 100 \<and>
   map_sum id status (construct_and_solve 0 0 [Project 1 ''P1'' 10 0 ''Test''] 100)
     = Inr ''no_solution''"
  by code_simp

text \<open>
  Claim C3, amended. \<^verbatim>\<open>solve\<close> returns the outcome \<^verbatim>\<open>no_solution\<close> when every project costs
  more than the budget. The outcome is not distinct from an optimum of value zero: for
  projects of strictly positive cost and non-negative impact, an instance in which every
  project that fits the budget has impact zero is reported as \<^verbatim>\<open>no_solution\<close> too; and
  whenever \<^verbatim>\<open>solve\<close> returns the outcome \<^verbatim>\<open>optimal\<close>, whatever the costs, its total impact is
  strictly positive.
\<close>

theorem no_solution_outcome:
  "(ps \<noteq> [] \<and> 0 < b \<and> (\<forall>p \<in> set ps. b < cost p)
      \<longrightarrow> (\<exists>m. construct_and_solve t0 t1 ps b = Inr (No_solution m))) \<and>
   (ps \<noteq> [] \<and> 0 < b \<and> (\<forall>p \<in> set ps. 0 < cost p \<and> 0 \<le> impact p) \<and>
    (\<forall>p \<in> set ps. cost p \<le> b \<longrightarrow> impact p = 0)
      \<longrightarrow> (\<exists>m. construct_and_solve t0 t1 ps b = Inr (No_solution m))) \<and>
   (construct_and_solve t0 t1 ps b = Inr (Optimal sol m d) \<longrightarrow> 0 < sol_total_impact sol)"
proof (intro conjI impI)
  assume "ps \<noteq> [] \<and> 0 < b \<and> (\<forall>p \<in> set ps. b < cost p)"
  then show "\<exists>m. construct_and_solve t0 t1 ps b = Inr (No_solution m)"
    by (intro construct_and_solve_nothing_fits) simp_all
next
  assume a: "ps \<noteq> [] \<and> 0 < b \<and> (\<forall>p \<in> set ps. 0 < cost p \<and> 0 \<le> impact p) \<and>
    (\<forall>p \<in> set ps. cost p \<le> b \<longrightarrow> impact p = 0)"
  then have la: "list_all (\<lambda>p. 0 < cost p \<and> 0 \<le> impact p) ps" by (simp add: list_all_iff)
  from a have "\<forall>p \<in> set ps. 0 \<le> cost p" by (auto intro: less_imp_le)
  with a have z: "optimal_impact ps b = 0" by (intro optimal_impact_zero) simp_all
  from a la solve_optimal_positive_costs[of ps b t0 t1] obtain r where
    r: "construct_and_solve t0 t1 ps b = Inr r"
    and c: "case r of No_solution m \<Rightarrow> optimal_impact ps b = 0
      | Optimal sol m d \<Rightarrow> sol_total_impact sol = optimal_impact ps b \<and> sol_total_cost sol \<le> b
          \<and> 0 < optimal_impact ps b
      | Heuristic sol t \<Rightarrow> False" by blast
  from c z obtain m where "r = No_solution m" by (cases r) simp_all
  with r show "\<exists>m. construct_and_solve t0 t1 ps b = Inr (No_solution m)" by simp
next
  assume "construct_and_solve t0 t1 ps b = Inr (Optimal sol m d)"
  then show "0 < sol_total_impact sol" by (rule construct_and_solve_optimal_positive)
qed

theorem no_solution_outcome_witness:
  "map_sum id status
     (construct_and_solve 0 0
        [Project 1 ''P1'' 100 50 ''Test'', Project 2 ''P2'' 150 75 ''Test''] 50)
     = Inr ''no_solution'' \<and>
   map_sum id status
     (construct_and_solve 0 0
        [Project 1 ''P1'' 10 0 ''Test'', Project 2 ''P2'' 150 75 ''Test''] 100)
     = Inr ''no_solution'' \<and>
   map_sum id result_total_impact
     (construct_and_solve 0 0 [Project 1 ''P1'' 50 30 ''Test''] 100) = Inr (Some 30) \<and>
   (0::real) < 30"
proof -
  have "\<exists>m. construct_and_solve 0 0
        [Project 1 ''P1'' 100 50 ''Test'', Project 2 ''P2'' 150 75 ''Test''] 50
      = Inr (No_solution m)"
    using no_solution_outcome [of "[Project 1 ''P1'' 100 50 ''Test'', Project 2 ''P2'' 150 75 ''Test'']" 50 0 0]
    by (simp add: Project_def)
  then have 1: "map_sum id status
     (construct_and_solve 0 0
        [Project 1 ''P1'' 100 50 ''Test'', Project 2 ''P2'' 150 75 ''Test''] 50)
     = Inr ''no_solution''" by auto
  have "\<exists>m. construct_and_solve 0 0
        [Project 1 ''P1'' 10 0 ''Test'', Project 2 ''P2'' 150 75 ''Test''] 100
      = Inr (No_solution m)"
    using no_solution_outcome [of "[Project 1 ''P1'' 10 0 ''Test'', Project 2 ''P2'' 150 75 ''Test'']" 100 0 0]
    by (simp add: Project_def)
  then have 2: "map_sum id status
     (construct_and_solve 0 0
        [Project 1 ''P1'' 10 0 ''Test'', Project 2 ''P2'' 150 75 ''Test''] 100)
     = Inr ''no_solution''" by auto
  have "(case construct_and_solve 0 0 [Project 1 ''P1'' 50 30 ''Test''] 100 of
           Inr (Optimal sol m d) \<Rightarrow> sol_total_impact sol = 30 | _ \<Rightarrow> False)"
    by code_simp
  then obtain sol m d where o: "construct_and_solve 0 0 [Project 1 ''P1'' 50 30 ''Test''] 100
      = Inr (Optimal sol m d)" and v: "sol_total_impact sol = 30"
    by (auto split: sum.splits result.splits)
  from no_solution_outcome [of "[Project 1 ''P1'' 50 30 ''Test'']" 100 0 0 sol m d] o v
  have "(0::real) < 30" by simp
  with 1 2 o v show ?thesis by simp
qed

text \<open>With a project of cost zero the search can raise instead: the bound of the
  infeasible left child divides by the zero cost of the project that follows it.\<close>

lemma solve_zero_value_zero_cost_raises:
  "construct_and_solve 0 0
     [Project 1 ''A'' 10 5 ''Test'', Project 2 ''Z'' 0 0 ''Test''] 5 = Inl ZeroDivisionError"
  by code_simp

end
